theory Spec2Isabelle
  imports Main "HOL-Library.AList"
begin

chapter \<open>Model of the example scripts\<close>

section \<open>The dependency check at the top of examples/async\_example.py\<close>

text \<open>
  The module body of \<^verbatim>\<open>async_example.py\<close> (lines 15 to 53) is a straight sequence of
  statements: three standard-library imports, the computation of \<^verbatim>\<open>ASYNC_AVAILABLE\<close>, an
  \<^verbatim>\<open>if\<close> block that prints an installation banner and calls \<^verbatim>\<open>sys.exit(1)\<close>, and then the
  imports of the \<^verbatim>\<open>nocodb_simple_client\<close> package. The interpreter process is a record of
  what was printed, which modules were imported (in order) and the exit status once
  \<^verbatim>\<open>sys.exit\<close> has run. A statement executed after the process has exited has no effect:
  this is how the model expresses that \<^verbatim>\<open>SystemExit\<close> unwinds the module body.
\<close>

record proc =
  printed :: "string list"
  imported :: "string list"
  exit_status :: "nat option"

definition proc_start :: proc where
  "proc_start = \<lparr>printed = [], imported = [], exit_status = None\<rparr>"

definition print_line :: "string \<Rightarrow> proc \<Rightarrow> proc" where
  "print_line l p = (if exit_status p = None then p\<lparr>printed := printed p @ [l]\<rparr> else p)"

definition import_module :: "string \<Rightarrow> proc \<Rightarrow> proc" where
  "import_module m p = (if exit_status p = None then p\<lparr>imported := imported p @ [m]\<rparr> else p)"

definition sys_exit :: "nat \<Rightarrow> proc \<Rightarrow> proc" where
  "sys_exit c p = (if exit_status p = None then p\<lparr>exit_status := Some c\<rparr> else p)"

text \<open>
  \<^verbatim>\<open>importlib.util.find_spec\<close> is a parameter: it tells, for a top-level module name,
  whether a module spec is found (\<open>True\<close>) or \<^verbatim>\<open>None\<close> is returned (\<open>False\<close>).
\<close>

definition ASYNC_AVAILABLE :: "(string \<Rightarrow> bool) \<Rightarrow> bool" where
  "ASYNC_AVAILABLE find_spec = (find_spec ''aiohttp'' \<and> find_spec ''aiofiles'')"

definition rule60 :: string where
  "rule60 = replicate 60 (CHR ''='')"

definition install_banner :: "proc \<Rightarrow> proc" where
  "install_banner =
     print_line rule60 \<circ>
     print_line ''This will install: aiohttp, aiofiles'' \<circ>
     print_line [] \<circ>
     print_line ''    pip install \"nocodb-simple-client[async]\"'' \<circ>
     print_line [] \<circ>
     print_line ''To use the async client, install the [async] extra:'' \<circ>
     print_line [] \<circ>
     print_line rule60 \<circ>
     print_line ''ERROR: Async dependencies not installed!'' \<circ>
     print_line rule60"

definition dependency_check :: "(string \<Rightarrow> bool) \<Rightarrow> proc \<Rightarrow> proc" where
  "dependency_check find_spec p =
     (if \<not> ASYNC_AVAILABLE find_spec then sys_exit 1 (install_banner p) else p)"

definition client_imports :: "proc \<Rightarrow> proc" where
  "client_imports =
     import_module ''nocodb_simple_client.exceptions'' \<circ>
     import_module ''nocodb_simple_client.async_client'' \<circ>
     import_module ''nocodb_simple_client''"

definition stdlib_imports :: "proc \<Rightarrow> proc" where
  "stdlib_imports = import_module ''sys'' \<circ> import_module ''importlib.util'' \<circ> import_module ''asyncio''"

definition async_example_module :: "(string \<Rightarrow> bool) \<Rightarrow> proc" where
  "async_example_module find_spec =
     client_imports (dependency_check find_spec (stdlib_imports proc_start))"

section \<open>The bounded fan-out of example\_custom\_concurrency\<close>

text \<open>
  The only bulk dispatcher in the sources is \<^verbatim>\<open>example_custom_concurrency\<close>
  (\<^verbatim>\<open>async_example.py\<close>, lines 145 to 177):
  \<^verbatim>\<open>
      max_concurrent = 5
      semaphore = asyncio.Semaphore(max_concurrent)

      async def process_with_limit(record_data):
          async with semaphore:
              return await table.insert_record(record_data)

      records = [{"Name": f"Concurrent {i}"} for i in range(20)]
      tasks = [process_with_limit(record) for record in records]
      results = await asyncio.gather(*tasks)
  \<close>
  Its behaviour is that of \<^verbatim>\<open>asyncio.Semaphore\<close> and \<^verbatim>\<open>asyncio.gather\<close> (called without
  \<^verbatim>\<open>return_exceptions\<close>) on a single-threaded event loop. The model below follows the
  CPython 3.11 sources of both (\<^verbatim>\<open>asyncio/locks.py\<close>, \<^verbatim>\<open>asyncio/tasks.py\<close>), with the
  concurrency limit and the list of payloads as parameters instead of the constants 5 and
  20. The progress messages that the example prints are left out. This first model runs
  the callback of \<^verbatim>\<open>gather\<close> in the same step in which the task ends, and stops at the
  dispatch: what the event loop does around it (the callback queue, and the cancellation
  of the unfinished tasks once the dispatch has raised) is the subject of the next
  section.

  Each coroutine \<^verbatim>\<open>process_with_limit(record)\<close> that \<^verbatim>\<open>gather\<close> wraps in a task is in one
  of five states:
  \<^item> \<open>Pending\<close>: the task is scheduled and has not run yet;
  \<^item> \<open>Waiting\<close>: \<^verbatim>\<open>semaphore.acquire()\<close> found the semaphore locked, appended a future to
    \<^verbatim>\<open>_waiters\<close> and the task is suspended on it;
  \<^item> \<open>Woken\<close>: \<^verbatim>\<open>_wake_up_next\<close> has resolved that future (and taken the permit on the
    task's behalf), and the task has not run again yet;
  \<^item> \<open>InFlight\<close>: the task holds a permit and is suspended in
    \<^verbatim>\<open>await table.insert_record(record_data)\<close>;
  \<^item> \<open>Done r\<close>: the coroutine has returned the value \<open>v\<close> (\<open>r = Inr v\<close>) or raised the
    exception \<open>e\<close> (\<open>r = Inl e\<close>).
\<close>

datatype ('e, 'v) task = Pending | Waiting | Woken | InFlight | Done "'e + 'v"

text \<open>
  The event loop does one of two things with task number \<open>i\<close>: it runs the task (for the
  first time, or again after its waiter future was resolved), or it delivers the completion
  of the remote call the task is suspended in. The order of these events is not fixed by
  the program: \<^verbatim>\<open>gather\<close> documents that the coroutines are not necessarily scheduled in
  the order passed in, and the latency of each remote call is arbitrary. A schedule is a
  list of events; an event that is not possible in the current state leaves it unchanged.
\<close>

datatype event = Run nat | Complete nat

text \<open>
  The state shared by the tasks: the semaphore's \<^verbatim>\<open>_value\<close> and \<^verbatim>\<open>_waiters\<close> (a waiter
  future is identified by the index of its task), the tasks that \<^verbatim>\<open>gather\<close> keeps in
  \<^verbatim>\<open>children\<close>, its counter \<^verbatim>\<open>nfinished\<close> and its future \<^verbatim>\<open>outer\<close> (\<open>None\<close> while
  pending, \<open>Some (Inr results)\<close> after \<^verbatim>\<open>set_result\<close>, \<open>Some (Inl exc)\<close> after
  \<^verbatim>\<open>set_exception\<close>). What \<^verbatim>\<open>await asyncio.gather(*tasks)\<close> gives the caller is the content
  of \<open>outer\<close>: the list is returned, the exception is raised. \<open>calls\<close> logs the indices of
  the payloads for which \<^verbatim>\<open>table.insert_record\<close> has been called, in call order.
\<close>

record ('e, 'v) loop =
  sem_value :: nat
  waiters :: "nat list"
  children :: "('e, 'v) task list"
  nfinished :: nat
  outer :: "('e + 'v list) option"
  calls :: "nat list"

text \<open>
  \<^verbatim>\<open>Semaphore.locked\<close>: the value is zero or some waiter is not cancelled (no waiter is
  ever cancelled here, so: or there is a waiter).
\<close>

definition locked :: "('e, 'v) loop \<Rightarrow> bool" where
  "locked s \<longleftrightarrow> sem_value s = 0 \<or> waiters s \<noteq> []"

text \<open>
  \<^verbatim>\<open>Semaphore._wake_up_next\<close>: the first waiter whose future is not done gets the permit
  (\<^verbatim>\<open>_value -= 1\<close>) and its future is resolved. The waiter stays in \<^verbatim>\<open>_waiters\<close> until its
  task runs again.
\<close>

definition wake_up_next :: "('e, 'v) loop \<Rightarrow> ('e, 'v) loop" where
  "wake_up_next s =
     (case find (\<lambda>w. children s ! w = Waiting) (waiters s) of
        None \<Rightarrow> s
      | Some w \<Rightarrow> s\<lparr>sem_value := sem_value s - 1, children := (children s)[w := Woken]\<rparr>)"

text \<open>\<^verbatim>\<open>Semaphore.release\<close>: \<^verbatim>\<open>_value += 1\<close>, then \<^verbatim>\<open>_wake_up_next()\<close>.\<close>

definition release :: "('e, 'v) loop \<Rightarrow> ('e, 'v) loop" where
  "release s = wake_up_next (s\<lparr>sem_value := sem_value s + 1\<rparr>)"

text \<open>
  The body of the \<^verbatim>\<open>async with\<close> block: the task calls \<^verbatim>\<open>table.insert_record\<close> with its
  payload and is suspended until the call completes.
\<close>

definition enter_call :: "nat \<Rightarrow> ('e, 'v) loop \<Rightarrow> ('e, 'v) loop" where
  "enter_call i s = s\<lparr>children := (children s)[i := InFlight], calls := calls s @ [i]\<rparr>"

text \<open>
  First run of \<^verbatim>\<open>process_with_limit\<close>: \<^verbatim>\<open>async with semaphore\<close> calls \<^verbatim>\<open>acquire\<close>. If the
  semaphore is not locked the permit is taken at once and the body is entered; otherwise a
  waiter is appended and the task is suspended.
\<close>

definition start_task :: "nat \<Rightarrow> ('e, 'v) loop \<Rightarrow> ('e, 'v) loop" where
  "start_task i s =
     (if \<not> locked s then enter_call i (s\<lparr>sem_value := sem_value s - 1\<rparr>)
      else s\<lparr>waiters := waiters s @ [i], children := (children s)[i := Waiting]\<rparr>)"

text \<open>
  A woken task continues in \<^verbatim>\<open>acquire\<close> after \<^verbatim>\<open>await fut\<close>: it removes its future from
  \<^verbatim>\<open>_waiters\<close>, wakes the next waiter if the value is still positive, and enters the body.
\<close>

definition resume_task :: "nat \<Rightarrow> ('e, 'v) loop \<Rightarrow> ('e, 'v) loop" where
  "resume_task i s =
     (let s1 = s\<lparr>waiters := remove1 i (waiters s)\<rparr>;
          s2 = (if sem_value s1 > 0 then wake_up_next s1 else s1)
      in enter_call i s2)"

fun task_result :: "('e, 'v) task \<Rightarrow> 'v option" where
  "task_result (Done (Inr v)) = Some v"
| "task_result _ = None"

text \<open>
  \<^verbatim>\<open>_done_callback\<close> of \<^verbatim>\<open>gather\<close> with \<^verbatim>\<open>return_exceptions=False\<close>, called when a child
  is done with outcome \<open>r\<close>: the counter is incremented; if \<open>outer\<close> is already done
  nothing else happens; else an exception of the child is put into \<open>outer\<close> at once;
  else, when all children are finished, the list of their results, in the order of
  \<open>children\<close>, is put into \<open>outer\<close>. (That last branch is only reached when no child has
  raised, see lemma \<open>finish_task_gather_inv\<close>, so \<^const>\<open>those\<close> always succeeds there.)
\<close>

definition done_callback :: "'e + 'v \<Rightarrow> ('e, 'v) loop \<Rightarrow> ('e, 'v) loop" where
  "done_callback r s =
     (let s1 = s\<lparr>nfinished := nfinished s + 1\<rparr> in
      if outer s1 \<noteq> None then s1
      else case r of
        Inl exc \<Rightarrow> s1\<lparr>outer := Some (Inl exc)\<rparr>
      | Inr v \<Rightarrow>
          if nfinished s1 = length (children s1)
          then s1\<lparr>outer := map_option Inr (those (map task_result (children s1)))\<rparr>
          else s1)"

text \<open>
  The remote call of task \<open>i\<close> completes with \<open>op (ps ! i)\<close>, where \<open>op\<close> stands for
  \<^verbatim>\<open>table.insert_record\<close> (a parameter: the client is not part of these sources) and \<open>ps\<close>
  for \<^verbatim>\<open>records\<close>. Whether the call returned or raised, leaving the \<^verbatim>\<open>async with\<close> block
  releases the semaphore; then the coroutine returns or raises, the task is done and
  \<^verbatim>\<open>gather\<close>'s callback runs. (CPython queues the callback with \<^verbatim>\<open>call_soon\<close>; here it
  runs at once. The next section separates the two.)
\<close>

definition finish_task :: "('p \<Rightarrow> 'e + 'v) \<Rightarrow> 'p list \<Rightarrow> nat \<Rightarrow> ('e, 'v) loop \<Rightarrow> ('e, 'v) loop" where
  "finish_task op ps i s =
     (let r = op (ps ! i);
          s1 = release s;
          s2 = s1\<lparr>children := (children s1)[i := Done r]\<rparr>
      in done_callback r s2)"

fun step :: "('p \<Rightarrow> 'e + 'v) \<Rightarrow> 'p list \<Rightarrow> event \<Rightarrow> ('e, 'v) loop \<Rightarrow> ('e, 'v) loop" where
  "step op ps (Run i) s =
     (if i < length (children s)
      then (case children s ! i of
              Pending \<Rightarrow> start_task i s
            | Woken \<Rightarrow> resume_task i s
            | _ \<Rightarrow> s)
      else s)"
| "step op ps (Complete i) s =
     (if i < length (children s) \<and> children s ! i = InFlight then finish_task op ps i s else s)"

text \<open>
  \<^verbatim>\<open>asyncio.Semaphore(C)\<close> followed by \<^verbatim>\<open>asyncio.gather(*tasks)\<close>: one pending task per
  payload. Called with no argument, \<^verbatim>\<open>gather\<close> returns a future that already holds the
  empty list.
\<close>

definition gather_init :: "nat \<Rightarrow> 'p list \<Rightarrow> ('e, 'v) loop" where
  "gather_init C ps =
     \<lparr>sem_value = C, waiters = [], children = replicate (length ps) Pending, nfinished = 0,
      outer = (if ps = [] then Some (Inr []) else None), calls = []\<rparr>"

definition run_loop :: "('p \<Rightarrow> 'e + 'v) \<Rightarrow> 'p list \<Rightarrow> event list \<Rightarrow> ('e, 'v) loop \<Rightarrow> ('e, 'v) loop" where
  "run_loop op ps es s = foldl (\<lambda>s e. step op ps e s) s es"

text \<open>The state of the dispatch of the payloads \<open>ps\<close> with limit \<open>C\<close> after the schedule \<open>es\<close>.\<close>

definition dispatch :: "nat \<Rightarrow> ('p \<Rightarrow> 'e + 'v) \<Rightarrow> 'p list \<Rightarrow> event list \<Rightarrow> ('e, 'v) loop" where
  "dispatch C op ps es = run_loop op ps es (gather_init C ps)"

text \<open>
  The constants of the example. Payload \<open>i\<close> stands for the record
  \<^verbatim>\<open>{"Name": f"Concurrent {i}"}\<close>.
\<close>

definition max_concurrent :: nat where
  "max_concurrent = 5"

definition records :: "nat list" where
  "records = [0..<20]"

definition example_custom_concurrency ::
    "(nat \<Rightarrow> 'e + 'v) \<Rightarrow> event list \<Rightarrow> ('e + 'v list) option" where
  "example_custom_concurrency insert_record es =
     outer (dispatch max_concurrent insert_record records es)"

subsection \<open>Errors of the remote operation\<close>

text \<open>
  Modelled from the spec: the exception classes of \<^verbatim>\<open>nocodb_simple_client.exceptions\<close>,
  which \<^verbatim>\<open>async_example.py\<close> imports (lines 48 to 53) and catches (lines 200 to 207) but
  which are defined outside these sources. The specification's taxonomy is \<open>NotFound\<close>
  (\<^verbatim>\<open>RecordNotFoundException\<close> in the example), \<open>AuthenticationFailure\<close>
  (\<^verbatim>\<open>AuthenticationException\<close>), \<open>RateLimited retry_after\<close> (\<^verbatim>\<open>RateLimitException\<close>, whose
  \<^verbatim>\<open>retry_after\<close> the example prints), \<open>ServiceError message\<close> (\<^verbatim>\<open>NocoDBException\<close>, whose
  \<^verbatim>\<open>message\<close> the example prints) and \<open>Timeout\<close>, which has no counterpart in the example.
\<close>

datatype remote_error =
  NotFound | AuthenticationFailure | RateLimited nat | ServiceError string | Timeout

text \<open>
  Two operations for concrete runs. \<open>demo_op\<close> is the operation of the specification's
  example, "succeed if \<open>i \<noteq> 2\<close> else fail with \<open>NotFound\<close>" (the value returned for item \<open>i\<close>
  is the record id \<open>100 + i\<close>); \<open>flaky_op\<close> fails on items 0 and 1 with different errors.
\<close>

definition demo_op :: "nat \<Rightarrow> remote_error + nat" where
  "demo_op i = (if i = 2 then Inl NotFound else Inr (100 + i))"

definition flaky_op :: "nat \<Rightarrow> remote_error + nat" where
  "flaky_op i =
     (if i = 0 then Inl NotFound else if i = 1 then Inl (RateLimited 30) else Inr (100 + i))"

subsection \<open>Observations and invariants of the event loop\<close>

fun finished :: "('e, 'v) task \<Rightarrow> bool" where
  "finished (Done r) = True"
| "finished _ = False"

text \<open>A task holds a permit from the moment the permit is taken for it until it releases it.\<close>

fun holds_permit :: "('e, 'v) task \<Rightarrow> bool" where
  "holds_permit Woken = True"
| "holds_permit InFlight = True"
| "holds_permit _ = False"

text \<open>
  The number of steps a task can still take: every possible event moves at least one task
  to a state of smaller rank and none to a larger one.
\<close>

fun rank :: "('e, 'v) task \<Rightarrow> nat" where
  "rank Pending = 4"
| "rank Waiting = 3"
| "rank Woken = 2"
| "rank InFlight = 1"
| "rank (Done r) = 0"

definition count_tasks :: "(('e, 'v) task \<Rightarrow> bool) \<Rightarrow> ('e, 'v) loop \<Rightarrow> nat" where
  "count_tasks P s = length (filter P (children s))"

definition held :: "('e, 'v) loop \<Rightarrow> nat" where
  "held s = count_tasks holds_permit s"

text \<open>The tasks that have entered the remote call and not finished it.\<close>

definition in_flight :: "('e, 'v) loop \<Rightarrow> nat" where
  "in_flight s = count_tasks (\<lambda>t. t = InFlight) s"

definition all_done :: "('e, 'v) loop \<Rightarrow> bool" where
  "all_done s = list_all finished (children s)"

definition rank_sum :: "('e, 'v) loop \<Rightarrow> nat" where
  "rank_sum s = sum_list (map rank (children s))"

fun enabled :: "event \<Rightarrow> ('e, 'v) loop \<Rightarrow> bool" where
  "enabled (Run i) s =
     (i < length (children s) \<and> (children s ! i = Pending \<or> children s ! i = Woken))"
| "enabled (Complete i) s = (i < length (children s) \<and> children s ! i = InFlight)"

definition waiters_ok :: "('e, 'v) loop \<Rightarrow> bool" where
  "waiters_ok s \<longleftrightarrow>
     distinct (waiters s) \<and>
     (\<forall>w \<in> set (waiters s). w < length (children s) \<and>
        (children s ! w = Waiting \<or> children s ! w = Woken)) \<and>
     (\<forall>i < length (children s). children s ! i = Waiting \<longrightarrow> i \<in> set (waiters s))"

text \<open>
  The invariant of the semaphore: the counter and the permits held add up to the capacity,
  the waiter queue is consistent with the task states, and a task only waits while the
  counter is zero or a woken task is about to run.
\<close>

definition sem_inv :: "nat \<Rightarrow> ('e, 'v) loop \<Rightarrow> bool" where
  "sem_inv C s \<longleftrightarrow>
     sem_value s + held s = C \<and> waiters_ok s \<and>
     ((\<exists>i < length (children s). children s ! i = Waiting) \<longrightarrow>
        sem_value s = 0 \<or> (\<exists>j < length (children s). children s ! j = Woken))"

text \<open>The two possible effects of \<^const>\<open>wake_up_next\<close>.\<close>

definition woke :: "('e, 'v) loop \<Rightarrow> ('e, 'v) loop \<Rightarrow> bool" where
  "woke s s' \<longleftrightarrow>
     (s' = s \<and> (\<forall>w \<in> set (waiters s). children s ! w \<noteq> Waiting)) \<or>
     (\<exists>x \<in> set (waiters s). children s ! x = Waiting \<and>
        s' = s\<lparr>sem_value := sem_value s - 1, children := (children s)[x := Woken]\<rparr>)"

text \<open>
  The invariant of \<^verbatim>\<open>gather\<close>: one child per payload, \<open>nfinished\<close> counts the finished
  children, a finished child holds the outcome of the operation on its own payload, and
  \<open>outer\<close> is pending exactly while no child has raised and some child is unfinished.
\<close>

definition gather_inv :: "('p \<Rightarrow> 'e + 'v) \<Rightarrow> 'p list \<Rightarrow> ('e, 'v) loop \<Rightarrow> bool" where
  "gather_inv op ps s \<longleftrightarrow>
     length (children s) = length ps \<and>
     nfinished s = count_tasks finished s \<and>
     (\<forall>i < length ps. \<forall>r. children s ! i = Done r \<longrightarrow> r = op (ps ! i)) \<and>
     (case outer s of
        None \<Rightarrow> nfinished s < length ps \<and> (\<forall>i < length ps. \<forall>e. children s ! i \<noteq> Done (Inl e))
      | Some (Inl e) \<Rightarrow> (\<exists>i < length ps. children s ! i = Done (Inl e))
      | Some (Inr vs) \<Rightarrow> children s = map (\<lambda>v. Done (Inr v)) vs)"

section \<open>The event loop around the dispatch: queued callbacks and cancellation\<close>

text \<open>
  The model of the previous section takes two steps of CPython together and leaves one
  out. This section refines it; the semaphore and \<^verbatim>\<open>_done_callback\<close> are the functions
  defined above.
  \<^item> When a task is done its callbacks do not run at once: \<^verbatim>\<open>Future.__schedule_callbacks\<close>
    queues them with \<^verbatim>\<open>call_soon\<close>. So \<^verbatim>\<open>_done_callback\<close> of \<^verbatim>\<open>gather\<close> runs in a later
    iteration of the loop, after whatever was queued before it (in particular a waiter
    that the release has just woken), and in between there are states in which a child
    is done while \<open>nfinished\<close> and \<open>outer\<close> do not show it yet.
  \<^item> \<^verbatim>\<open>await asyncio.gather(*tasks)\<close> (line 174) stands inside
    \<^verbatim>\<open>async with AsyncNocoDBClient(config) as client\<close> (line 156), in a coroutine that
    \<^verbatim>\<open>main\<close> awaits once its call is uncommented (lines 261 to 266), and \<^verbatim>\<open>main\<close> is run
    by \<^verbatim>\<open>asyncio.run(main())\<close> (line 274). Nothing on the way catches an exception. So
    when \<open>outer\<close> holds an exception, the await raises it, it leaves
    \<^verbatim>\<open>example_custom_concurrency\<close> and \<^verbatim>\<open>main\<close>, and \<^verbatim>\<open>asyncio.run\<close> cancels every task
    that is not done (\<^verbatim>\<open>_cancel_all_tasks\<close> in \<^verbatim>\<open>asyncio/runners.py\<close>) and runs the loop
    until all of them are.

  A cancelled task is done, with the exception \<^verbatim>\<open>CancelledError\<close>. The exceptions of a
  task are therefore the errors of the remote operation and \<^verbatim>\<open>CancelledError\<close>.
\<close>

datatype 'e exn = Remote 'e | CancelledError

text \<open>
  The remote operation as a task sees it: it returns its value or raises one of its own
  errors.
\<close>

definition lift_op :: "('p \<Rightarrow> 'e + 'v) \<Rightarrow> 'p \<Rightarrow> 'e exn + 'v" where
  "lift_op op p = (case op p of Inl e \<Rightarrow> Inl (Remote e) | Inr v \<Rightarrow> Inr v)"

text \<open>
  The state: the loop of the previous section, over the exceptions \<open>'e exn\<close>, and the
  callbacks \<^verbatim>\<open>_done_callback\<close> that \<^verbatim>\<open>call_soon\<close> has queued and the loop has not run yet,
  each identified by the index of the child it was queued for.
\<close>

record ('e, 'v) script =
  lp :: "('e exn, 'v) loop"
  ready :: "nat list"

text \<open>
  The events: the two of the previous section, the run of a queued callback, and the
  cancellation of a task. CPython runs its queue in order; here the queued callbacks and
  the runnable tasks may run in any order, which includes the orders of CPython.
\<close>

datatype script_event = SRun nat | SComplete nat | SNotify nat | SCancel nat

text \<open>
  Task \<open>i\<close> leaves the \<^verbatim>\<open>async with semaphore\<close> block with the outcome \<open>r\<close>: \<^verbatim>\<open>__aexit__\<close>
  releases the semaphore, whether the block returned or raised, and the task is done.
\<close>

definition end_task :: "'e + 'v \<Rightarrow> nat \<Rightarrow> ('e, 'v) loop \<Rightarrow> ('e, 'v) loop" where
  "end_task r i s = (let s1 = release s in s1\<lparr>children := (children s1)[i := Done r]\<rparr>)"

text \<open>
  \<^verbatim>\<open>Task.cancel()\<close> on task \<open>i\<close>, taken together with the step of the task in which
  \<^verbatim>\<open>CancelledError\<close> is thrown into its coroutine (between the two the task does nothing,
  and a cancelled waiter future is skipped by \<^verbatim>\<open>locked\<close> and by \<^verbatim>\<open>_wake_up_next\<close>, as if it
  had left \<^verbatim>\<open>_waiters\<close> already):
  \<^item> a task that has not started never enters its coroutine;
  \<^item> a task suspended in \<^verbatim>\<open>semaphore.acquire()\<close> has its waiter future cancelled;
    \<^verbatim>\<open>acquire\<close> removes the future from \<^verbatim>\<open>_waiters\<close> and, the future being cancelled, leaves
    the counter alone;
  \<^item> a task whose waiter future was already resolved holds the permit taken on its behalf;
    \<^verbatim>\<open>acquire\<close> removes the future from \<^verbatim>\<open>_waiters\<close> and, the future not being cancelled,
    gives the permit back (\<^verbatim>\<open>self._value += 1; self._wake_up_next()\<close>);
  \<^item> in a task suspended in the remote call, the await raises \<^verbatim>\<open>CancelledError\<close>, which
    leaves the \<^verbatim>\<open>async with\<close> block: the semaphore is released;
  \<^item> on a task that is done, \<^verbatim>\<open>cancel()\<close> does nothing.
\<close>

definition cancel_task :: "nat \<Rightarrow> ('e exn, 'v) loop \<Rightarrow> ('e exn, 'v) loop" where
  "cancel_task i s =
     (case children s ! i of
        Pending \<Rightarrow> s\<lparr>children := (children s)[i := Done (Inl CancelledError)]\<rparr>
      | Waiting \<Rightarrow> s\<lparr>waiters := remove1 i (waiters s),
                      children := (children s)[i := Done (Inl CancelledError)]\<rparr>
      | Woken \<Rightarrow> end_task (Inl CancelledError) i (s\<lparr>waiters := remove1 i (waiters s)\<rparr>)
      | InFlight \<Rightarrow> end_task (Inl CancelledError) i s
      | Done r \<Rightarrow> s)"

text \<open>The await of the dispatch raises: \<open>outer\<close> holds an exception.\<close>

fun has_raised :: "('e + 'a) option \<Rightarrow> bool" where
  "has_raised (Some (Inl e)) = True"
| "has_raised _ = False"

text \<open>
  One event of the script. Running a task is the step of the previous section. When the
  remote call of task \<open>i\<close> completes, with \<open>op (ps ! i)\<close>, the task ends and its callback is
  queued. A queued callback runs \<^const>\<open>done_callback\<close> on the outcome of its child. A task
  is cancelled only by \<^verbatim>\<open>asyncio.run\<close>, hence only once the dispatch has raised, and only if
  it is not done; it ends and its callback is queued. An event that is not possible
  leaves the state unchanged.
\<close>

fun script_step ::
    "('p \<Rightarrow> 'e + 'v) \<Rightarrow> 'p list \<Rightarrow> script_event \<Rightarrow> ('e, 'v) script \<Rightarrow> ('e, 'v) script" where
  "script_step op ps (SRun i) s = s\<lparr>lp := step (lift_op op) ps (Run i) (lp s)\<rparr>"
| "script_step op ps (SComplete i) s =
     (if i < length (children (lp s)) \<and> children (lp s) ! i = InFlight
      then s\<lparr>lp := end_task (lift_op op (ps ! i)) i (lp s), ready := ready s @ [i]\<rparr>
      else s)"
| "script_step op ps (SNotify i) s =
     (if i \<in> set (ready s)
      then (case children (lp s) ! i of
              Done r \<Rightarrow> s\<lparr>lp := done_callback r (lp s), ready := remove1 i (ready s)\<rparr>
            | _ \<Rightarrow> s)
      else s)"
| "script_step op ps (SCancel i) s =
     (if i < length (children (lp s)) \<and> \<not> finished (children (lp s) ! i) \<and>
         has_raised (outer (lp s))
      then s\<lparr>lp := cancel_task i (lp s), ready := ready s @ [i]\<rparr>
      else s)"

definition script_init :: "nat \<Rightarrow> 'p list \<Rightarrow> ('e, 'v) script" where
  "script_init C ps = \<lparr>lp = gather_init C ps, ready = []\<rparr>"

definition run_script ::
    "('p \<Rightarrow> 'e + 'v) \<Rightarrow> 'p list \<Rightarrow> script_event list \<Rightarrow> ('e, 'v) script \<Rightarrow> ('e, 'v) script" where
  "run_script op ps es s = foldl (\<lambda>s e. script_step op ps e s) s es"

text \<open>
  The state of the script that dispatches the payloads \<open>ps\<close> with limit \<open>C\<close>, after the
  schedule \<open>es\<close>.
\<close>

definition script :: "nat \<Rightarrow> ('p \<Rightarrow> 'e + 'v) \<Rightarrow> 'p list \<Rightarrow> script_event list \<Rightarrow> ('e, 'v) script" where
  "script C op ps es = run_script op ps es (script_init C ps)"

text \<open>
  A schedule of the previous section is the schedule of the script in which every
  callback runs right after its task has ended and nothing is cancelled (lemma
  \<open>dispatch_refined\<close>).
\<close>

fun script_events :: "event \<Rightarrow> script_event list" where
  "script_events (Run i) = [SRun i]"
| "script_events (Complete i) = [SComplete i, SNotify i]"

subsection \<open>Observations and invariants of the script\<close>

text \<open>Every task is done and every queued callback has run.\<close>

definition settled :: "('e, 'v) script \<Rightarrow> bool" where
  "settled s \<longleftrightarrow> all_done (lp s) \<and> ready s = []"

fun script_enabled :: "script_event \<Rightarrow> ('e, 'v) script \<Rightarrow> bool" where
  "script_enabled (SRun i) s = enabled (Run i) (lp s)"
| "script_enabled (SComplete i) s = enabled (Complete i) (lp s)"
| "script_enabled (SNotify i) s = (i \<in> set (ready s))"
| "script_enabled (SCancel i) s =
     (i < length (children (lp s)) \<and> \<not> finished (children (lp s) ! i) \<and>
      has_raised (outer (lp s)))"

fun is_cancel :: "script_event \<Rightarrow> bool" where
  "is_cancel (SCancel i) = True"
| "is_cancel _ = False"

text \<open>A schedule in which nothing is cancelled.\<close>

definition no_cancel :: "script_event list \<Rightarrow> bool" where
  "no_cancel es = list_all (\<lambda>e. \<not> is_cancel e) es"

text \<open>
  The number of events the script can still take is bounded by this measure: every
  possible event makes it strictly smaller.
\<close>

definition script_measure :: "('e, 'v) script \<Rightarrow> nat" where
  "script_measure s = 2 * rank_sum (lp s) + length (ready s)"

text \<open>
  Between two states, tasks that are not done may have moved; the done tasks and
  \<^verbatim>\<open>gather\<close>'s counter and future are the same.
\<close>

definition moved :: "('e, 'v) loop \<Rightarrow> ('e, 'v) loop \<Rightarrow> bool" where
  "moved s s' \<longleftrightarrow>
     length (children s') = length (children s) \<and> nfinished s' = nfinished s \<and>
     outer s' = outer s \<and>
     (\<forall>j < length (children s). children s' ! j = children s ! j \<or>
        (\<not> finished (children s ! j) \<and> \<not> finished (children s' ! j)))"

text \<open>
  The invariant of \<^verbatim>\<open>gather\<close> in the script. While \<open>outer\<close> is pending some child's callback
  has not run, and the callback of every child that has raised is still queued; an
  exception in \<open>outer\<close> is the error of the operation on some payload; a list in \<open>outer\<close>
  is the list of the children's values and no callback is left.
\<close>

definition outer_ok :: "('p \<Rightarrow> 'e + 'v) \<Rightarrow> 'p list \<Rightarrow> ('e, 'v) script \<Rightarrow> bool" where
  "outer_ok op ps s =
     (case outer (lp s) of
        None \<Rightarrow> nfinished (lp s) < length ps \<and>
          (\<forall>i < length ps. \<forall>x. children (lp s) ! i = Done (Inl x) \<longrightarrow> i \<in> set (ready s))
      | Some (Inl x) \<Rightarrow> (\<exists>i < length ps. \<exists>e. x = Remote e \<and> op (ps ! i) = Inl e)
      | Some (Inr vs) \<Rightarrow> children (lp s) = map (\<lambda>v. Done (Inr v)) vs \<and> ready s = [])"

text \<open>
  One child per payload; the queued callbacks are those of done children, each at most
  once; \<open>nfinished\<close> counts the done children whose callback has run; a done child holds
  the outcome of the operation on its own payload or \<^verbatim>\<open>CancelledError\<close>; and a child is
  cancelled only when the dispatch has raised.
\<close>

definition script_inv :: "('p \<Rightarrow> 'e + 'v) \<Rightarrow> 'p list \<Rightarrow> ('e, 'v) script \<Rightarrow> bool" where
  "script_inv op ps s \<longleftrightarrow>
     length (children (lp s)) = length ps \<and>
     distinct (ready s) \<and>
     (\<forall>i \<in> set (ready s). i < length ps \<and> finished (children (lp s) ! i)) \<and>
     nfinished (lp s) + length (ready s) = count_tasks finished (lp s) \<and>
     (\<forall>i < length ps. \<forall>r. children (lp s) ! i = Done r \<longrightarrow>
        r = lift_op op (ps ! i) \<or> r = Inl CancelledError) \<and>
     ((\<exists>i < length ps. children (lp s) ! i = Done (Inl CancelledError)) \<longrightarrow>
        has_raised (outer (lp s))) \<and>
     outer_ok op ps s"


section \<open>Reading a .env file in examples/dotenv\_example.py\<close>

text \<open>
  \<^verbatim>\<open>example_dotenv_values\<close> (\<^verbatim>\<open>dotenv_example.py\<close>, lines 227 to 263) writes a .env file into
  a temporary directory, reads it with \<^verbatim>\<open>dotenv_values\<close>, prints the pairs and then prints
  what \<^verbatim>\<open>os.getenv("NOCODB_BASE_URL", "(not set)")\<close> gives. The world it acts on is the
  process environment, the file system and the standard output.
\<close>

record world =
  os_environ :: "string \<rightharpoonup> string"
  files :: "string \<rightharpoonup> string"
  stdout :: "string list"

definition print_out :: "string \<Rightarrow> world \<Rightarrow> world" where
  "print_out l w = w\<lparr>stdout := stdout w @ [l]\<rparr>"

definition write_text :: "string \<Rightarrow> string \<Rightarrow> world \<Rightarrow> world" where
  "write_text path content w = w\<lparr>files := (files w)(path \<mapsto> content)\<rparr>"

definition getenv :: "string \<Rightarrow> string \<Rightarrow> world \<Rightarrow> string" where
  "getenv key dflt w = (case os_environ w key of None \<Rightarrow> dflt | Some v \<Rightarrow> v)"

text \<open>
  \<^verbatim>\<open>dotenv_values\<close> and \<^verbatim>\<open>load_dotenv\<close> belong to the python-dotenv package, not to this
  repository. They are modelled from their documented behaviour: \<^verbatim>\<open>dotenv_values(path)\<close>
  parses the file and returns its bindings as a dictionary (here an association list in
  insertion order, a repeated key keeping its first position and its last value) and
  touches nothing else; \<^verbatim>\<open>load_dotenv(path, override)\<close> stores the same bindings into
  \<^verbatim>\<open>os.environ\<close>, keeping an existing variable unless \<^verbatim>\<open>override\<close> is set. The parser covers
  the part of the .env syntax that the example files use: blank lines, \<^verbatim>\<open>#\<close> comment lines
  and unquoted \<^verbatim>\<open>KEY=VALUE\<close> lines (no quoting, no \<^verbatim>\<open>export\<close> prefix, no variable
  expansion). Outside that part it is not the parser of python-dotenv, which strips
  quotes, cuts an inline comment after white space, binds a line without \<^verbatim>\<open>=\<close> to
  \<^verbatim>\<open>None\<close> and rejects an empty key; no such line occurs in the files of the examples.
\<close>

fun splitlines :: "string \<Rightarrow> string list" where
  "splitlines [] = [[]]"
| "splitlines (c # cs) =
     (if c = CHR 0x0A then [] # splitlines cs
      else (case splitlines cs of [] \<Rightarrow> [[c]] | l # ls \<Rightarrow> (c # l) # ls))"

definition is_space :: "char \<Rightarrow> bool" where
  "is_space c \<longleftrightarrow> c = CHR '' '' \<or> c = CHR 0x09 \<or> c = CHR 0x0D"

definition strip :: "string \<Rightarrow> string" where
  "strip s = rev (dropWhile is_space (rev (dropWhile is_space s)))"

definition parse_binding :: "string \<Rightarrow> (string \<times> string) option" where
  "parse_binding line =
     (let l = strip line in
      if l = [] \<or> hd l = CHR ''#'' \<or> CHR ''='' \<notin> set l then None
      else Some (strip (takeWhile (\<lambda>c. c \<noteq> CHR ''='') l),
                 strip (tl (dropWhile (\<lambda>c. c \<noteq> CHR ''='') l))))"

definition parse_dotenv :: "string \<Rightarrow> (string \<times> string) list" where
  "parse_dotenv content =
     foldl (\<lambda>d kv. AList.update (fst kv) (snd kv) d) []
       (List.map_filter parse_binding (splitlines content))"

definition dotenv_values :: "string \<Rightarrow> world \<Rightarrow> (string \<times> string) list" where
  "dotenv_values path w =
     (case files w path of None \<Rightarrow> [] | Some content \<Rightarrow> parse_dotenv content)"

definition set_variable :: "bool \<Rightarrow> (string \<rightharpoonup> string) \<Rightarrow> string \<times> string \<Rightarrow> (string \<rightharpoonup> string)" where
  "set_variable override env kv =
     (if override \<or> env (fst kv) = None then env(fst kv \<mapsto> snd kv) else env)"

definition load_dotenv :: "string \<Rightarrow> bool \<Rightarrow> world \<Rightarrow> world" where
  "load_dotenv path override w =
     w\<lparr>os_environ := foldl (set_variable override) (os_environ w) (dotenv_values path w)\<rparr>"

text \<open>The string \<^verbatim>\<open>env_content\<close> of lines 233 to 237.\<close>

definition env_content :: string where
  "env_content =
     CHR 0x0A # ''NOCODB_BASE_URL=https://isolated-example.com'' @
     CHR 0x0A # ''NOCODB_API_TOKEN=isolated-token'' @
     CHR 0x0A # ''NOCODB_TIMEOUT=45.0'' @ [CHR 0x0A]"

definition print_items :: "(string \<times> string) list \<Rightarrow> world \<Rightarrow> world" where
  "print_items d w = foldl (\<lambda>w kv. print_out (''  '' @ fst kv @ ''='' @ snd kv) w) w d"

text \<open>
  Lines 229 to 252 of \<^verbatim>\<open>example_dotenv_values\<close>, up to and including the print of the
  environment lookup; \<open>tmpdir\<close> is the directory that \<^verbatim>\<open>TemporaryDirectory()\<close> created. The
  function returns \<^verbatim>\<open>config_dict\<close> and the world. (The rest of the function builds a
  \<^verbatim>\<open>NocoDBConfig\<close>, a class defined outside these sources, from \<^verbatim>\<open>config_dict\<close> and prints
  its timeout.)
\<close>

definition example_dotenv_values :: "string \<Rightarrow> world \<Rightarrow> (string \<times> string) list \<times> world" where
  "example_dotenv_values tmpdir w =
     (let w1 = print_out (CHR 0x0A # replicate 60 (CHR ''='')) w;
          w2 = print_out ''Example 4: Read .env Without Modifying os.environ'' w1;
          w3 = print_out (replicate 60 (CHR ''='')) w2;
          env_path = tmpdir @ ''/.env'';
          w4 = write_text env_path env_content w3;
          config_dict = dotenv_values env_path w4;
          w5 = print_out ''Read without modifying environment:'' w4;
          w6 = print_items config_dict w5;
          w7 = print_out [] w6;
          w8 = print_out (''os.environ['NOCODB_BASE_URL'] = '' @
                 getenv ''NOCODB_BASE_URL'' ''(not set)'' w7) w7
      in (config_dict, w8))"

chapter \<open>Lemmas\<close>

section \<open>Lemmas about the dependency check\<close>

lemma stdlib_imports_start:
  "stdlib_imports proc_start =
     \<lparr>printed = [], imported = [''asyncio'', ''importlib.util'', ''sys''], exit_status = None\<rparr>"
  by (simp add: stdlib_imports_def proc_start_def import_module_def)

lemma client_imports_exited:
  "exit_status p \<noteq> None \<Longrightarrow> client_imports p = p"
  by (simp add: client_imports_def import_module_def)

lemma install_banner_running:
  "exit_status p = None \<Longrightarrow>
     exit_status (install_banner p) = None \<and> imported (install_banner p) = imported p \<and>
     printed (install_banner p) = printed p @
       [rule60, ''ERROR: Async dependencies not installed!'', rule60, [],
        ''To use the async client, install the [async] extra:'', [],
        ''    pip install \"nocodb-simple-client[async]\"'', [],
        ''This will install: aiohttp, aiofiles'', rule60]"
  by (simp add: install_banner_def print_line_def)

section \<open>Lemmas about the event loop\<close>

subsection \<open>Counting under a list update\<close>

lemma length_filter_update:
  "i < length xs \<Longrightarrow>
     length (filter P (xs[i := y])) + (if P (xs ! i) then 1 else 0) =
     length (filter P xs) + (if P y then 1 else 0)"
proof (induction xs arbitrary: i)
  case Nil
  then show ?case by simp
next
  case (Cons a xs)
  show ?case
  proof (cases i)
    case 0
    then show ?thesis by simp
  next
    case (Suc j)
    with Cons.prems have "j < length xs" by simp
    from Cons.IH [OF this] Suc show ?thesis by simp
  qed
qed

lemma sum_list_map_update:
  fixes f :: "'a \<Rightarrow> nat"
  shows "i < length xs \<Longrightarrow>
     sum_list (map f (xs[i := y])) + f (xs ! i) = sum_list (map f xs) + f y"
proof (induction xs arbitrary: i)
  case Nil
  then show ?case by simp
next
  case (Cons a xs)
  show ?case
  proof (cases i)
    case 0
    then show ?thesis by simp
  next
    case (Suc j)
    with Cons.prems have "j < length xs" by simp
    from Cons.IH [OF this] Suc show ?thesis by simp
  qed
qed

lemma count_update:
  assumes "i < length (children s)" "children s' = (children s)[i := y]"
  shows "count_tasks P s' + (if P (children s ! i) then 1 else 0) =
         count_tasks P s + (if P y then 1 else 0)"
  using length_filter_update [OF assms(1), of P y] assms(2)
  by (simp add: count_tasks_def)

lemma rank_update:
  assumes "i < length (children s)" "children s' = (children s)[i := y]"
  shows "rank_sum s' + rank (children s ! i) = rank_sum s + rank y"
  using sum_list_map_update [OF assms(1), of rank y] assms(2)
  by (simp add: rank_sum_def)

subsection \<open>Waking the next waiter\<close>

lemma wake_cases: "woke s (wake_up_next s)"
proof (cases "find (\<lambda>w. children s ! w = Waiting) (waiters s)")
  case None
  then have "wake_up_next s = s" by (simp add: wake_up_next_def)
  moreover from None have "\<forall>w \<in> set (waiters s). children s ! w \<noteq> Waiting"
    by (auto simp: find_None_iff)
  ultimately show ?thesis by (simp add: woke_def)
next
  case (Some w)
  then have "w \<in> set (waiters s) \<and> children s ! w = Waiting"
    by (auto simp: find_Some_iff)
  with Some show ?thesis by (auto simp: wake_up_next_def woke_def)
qed

lemma wokeE:
  assumes "woke s s'" "waiters_ok s"
  obtains (same) "s' = s" "\<forall>i < length (children s). children s ! i \<noteq> Waiting"
  | (wake) x where "x \<in> set (waiters s)" "x < length (children s)" "children s ! x = Waiting"
      "s' = s\<lparr>sem_value := sem_value s - 1, children := (children s)[x := Woken]\<rparr>"
proof -
  from assms(1) consider "s' = s \<and> (\<forall>w \<in> set (waiters s). children s ! w \<noteq> Waiting)"
    | "\<exists>x \<in> set (waiters s). children s ! x = Waiting \<and>
        s' = s\<lparr>sem_value := sem_value s - 1, children := (children s)[x := Woken]\<rparr>"
    unfolding woke_def by blast
  then show thesis
  proof cases
    case 1
    with assms(2) have "\<forall>i < length (children s). children s ! i \<noteq> Waiting"
      unfolding waiters_ok_def by blast
    with 1 show thesis using same by blast
  next
    case 2
    then obtain x where x: "x \<in> set (waiters s)" "children s ! x = Waiting"
      "s' = s\<lparr>sem_value := sem_value s - 1, children := (children s)[x := Woken]\<rparr>" by blast
    with assms(2) have "x < length (children s)" unfolding waiters_ok_def by blast
    with x show thesis using wake by blast
  qed
qed

lemma woke_fields:
  "woke s s' \<Longrightarrow> waiters s' = waiters s \<and> nfinished s' = nfinished s \<and> outer s' = outer s \<and>
     calls s' = calls s \<and> length (children s') = length (children s)"
  by (auto simp: woke_def)

lemma woke_nth:
  assumes "woke s s'" "waiters_ok s"
  shows "children s' ! i = children s ! i \<or>
     (children s ! i = Waiting \<and> children s' ! i = Woken \<and> i \<in> set (waiters s))"
  using assms
proof (cases rule: wokeE)
  case same
  then show ?thesis by simp
next
  case (wake x)
  then show ?thesis by (cases "i = x") simp_all
qed

lemma woke_count:
  assumes "woke s s'" "waiters_ok s" "P Waiting = P Woken"
  shows "count_tasks P s' = count_tasks P s"
  using assms(1,2)
proof (cases rule: wokeE)
  case same
  then show ?thesis by simp
next
  case (wake x)
  from count_update [OF wake(2), of s' Woken P] wake assms(3) show ?thesis by simp
qed

lemma woke_held:
  assumes "woke s s'" "waiters_ok s" "0 < sem_value s"
  shows "sem_value s' + held s' = sem_value s + held s"
  using assms(1,2)
proof (cases rule: wokeE)
  case same
  then show ?thesis by simp
next
  case (wake x)
  from count_update [OF wake(2), of s' Woken holds_permit] wake
  have "held s' = held s + 1" by (simp add: held_def)
  with assms(3) wake(4) show ?thesis by simp
qed

lemma woke_rank:
  assumes "woke s s'" "waiters_ok s"
  shows "rank_sum s' \<le> rank_sum s"
  using assms
proof (cases rule: wokeE)
  case same
  then show ?thesis by simp
next
  case (wake x)
  from rank_update [OF wake(2), of s' Woken] wake show ?thesis by simp
qed

lemma woke_waiters_ok:
  assumes "woke s s'" "waiters_ok s"
  shows "waiters_ok s'"
  using assms
proof (cases rule: wokeE)
  case same
  with assms show ?thesis by simp
next
  case (wake x)
  have d: "distinct (waiters s')" using assms(2) wake(4) by (simp add: waiters_ok_def)
  have a: "\<forall>w \<in> set (waiters s'). w < length (children s') \<and>
        (children s' ! w = Waiting \<or> children s' ! w = Woken)"
  proof
    fix w assume "w \<in> set (waiters s')"
    then have "w \<in> set (waiters s)" by (simp add: wake(4))
    with assms(2) have "w < length (children s) \<and>
        (children s ! w = Waiting \<or> children s ! w = Woken)" unfolding waiters_ok_def by blast
    then show "w < length (children s') \<and>
        (children s' ! w = Waiting \<or> children s' ! w = Woken)"
      by (cases "w = x") (simp_all add: wake(4))
  qed
  have b: "\<forall>i < length (children s'). children s' ! i = Waiting \<longrightarrow> i \<in> set (waiters s')"
  proof (intro allI impI)
    fix i assume i: "i < length (children s')" "children s' ! i = Waiting"
    then have "i \<noteq> x" by (auto simp: wake(4))
    with i have "i < length (children s) \<and> children s ! i = Waiting" by (simp add: wake(4))
    with assms(2) have "i \<in> set (waiters s)" unfolding waiters_ok_def by blast
    then show "i \<in> set (waiters s')" by (simp add: wake(4))
  qed
  from d a b show ?thesis unfolding waiters_ok_def by blast
qed

lemma woke_someone:
  assumes "woke s s'" "waiters_ok s" "i < length (children s)" "children s' ! i = Waiting"
  shows "\<exists>j \<in> set (waiters s). children s' ! j = Woken"
  using assms(1,2)
proof (cases rule: wokeE)
  case same
  with assms(3,4) show ?thesis by auto
next
  case (wake x)
  then have "children s' ! x = Woken" by simp
  with wake(1) show ?thesis by blast
qed

subsection \<open>The semaphore invariant is preserved by every event\<close>

lemma sem_inv_cong:
  assumes "sem_value s' = sem_value s" "waiters s' = waiters s" "children s' = children s"
  shows "sem_inv C s' = sem_inv C s"
  using assms by (simp add: sem_inv_def held_def count_tasks_def waiters_ok_def)

lemma waiters_ok_update:
  assumes ok: "waiters_ok s" and i: "i < length (children s)" "i \<notin> set (waiters s)"
    and y: "y \<noteq> Waiting"
    and s': "waiters s' = waiters s" "children s' = (children s)[i := y]"
  shows "waiters_ok s'"
proof -
  have d: "distinct (waiters s')" using ok s' by (simp add: waiters_ok_def)
  have a: "\<forall>w \<in> set (waiters s'). w < length (children s') \<and>
        (children s' ! w = Waiting \<or> children s' ! w = Woken)"
  proof
    fix w assume "w \<in> set (waiters s')"
    then have w: "w \<in> set (waiters s)" by (simp add: s')
    with i have "w \<noteq> i" by auto
    moreover from w ok have "w < length (children s) \<and>
        (children s ! w = Waiting \<or> children s ! w = Woken)" unfolding waiters_ok_def by blast
    ultimately show "w < length (children s') \<and>
        (children s' ! w = Waiting \<or> children s' ! w = Woken)" by (simp add: s')
  qed
  have b: "\<forall>k < length (children s'). children s' ! k = Waiting \<longrightarrow> k \<in> set (waiters s')"
  proof (intro allI impI)
    fix k assume k: "k < length (children s')" "children s' ! k = Waiting"
    with y i have "k \<noteq> i" by (auto simp: s')
    with k have "k < length (children s) \<and> children s ! k = Waiting" by (simp add: s')
    with ok have "k \<in> set (waiters s)" unfolding waiters_ok_def by blast
    then show "k \<in> set (waiters s')" by (simp add: s')
  qed
  from d a b show ?thesis unfolding waiters_ok_def by blast
qed

lemma woken_witness_update:
  assumes ok: "waiters_ok s" and i: "i < length (children s)" "i \<notin> set (waiters s)"
    and y: "y \<noteq> Waiting"
    and s': "waiters s' = waiters s" "children s' = (children s)[i := y]" "sem_value s' = sem_value s"
    and w: "\<And>k. k < length (children s) \<Longrightarrow> children s ! k = Waiting \<Longrightarrow>
        sem_value s = 0 \<or> (\<exists>j \<in> set (waiters s). children s ! j = Woken)"
  shows "(\<exists>k < length (children s'). children s' ! k = Waiting) \<longrightarrow>
        sem_value s' = 0 \<or> (\<exists>j < length (children s'). children s' ! j = Woken)"
proof
  assume "\<exists>k < length (children s'). children s' ! k = Waiting"
  then obtain k where k: "k < length (children s')" "children s' ! k = Waiting" by blast
  with y i have "k \<noteq> i" by (auto simp: s')
  with k have "k < length (children s)" "children s ! k = Waiting" by (simp_all add: s')
  from w [OF this] show "sem_value s' = 0 \<or> (\<exists>j < length (children s'). children s' ! j = Woken)"
  proof
    assume "sem_value s = 0" then show ?thesis by (simp add: s')
  next
    assume "\<exists>j \<in> set (waiters s). children s ! j = Woken"
    then obtain j where j: "j \<in> set (waiters s)" "children s ! j = Woken" by blast
    with i have ji: "j \<noteq> i" by auto
    from j ok have "j < length (children s)" unfolding waiters_ok_def by blast
    with j ji have "j < length (children s') \<and> children s' ! j = Woken" by (simp add: s')
    then show ?thesis by blast
  qed
qed

lemma start_task_sem_inv:
  assumes inv: "sem_inv C s" and i: "i < length (children s)" "children s ! i = Pending"
  shows "sem_inv C (start_task i s)"
proof -
  from inv have ok: "waiters_ok s" by (simp add: sem_inv_def)
  from ok i have ni: "i \<notin> set (waiters s)" by (auto simp: waiters_ok_def)
  show ?thesis
  proof (cases "locked s")
    case False
    then have v: "sem_value s > 0" and w: "waiters s = []" by (auto simp: locked_def)
    let ?s' = "enter_call i (s\<lparr>sem_value := sem_value s - 1\<rparr>)"
    have st: "start_task i s = ?s'" using False by (simp add: start_task_def)
    have f: "waiters ?s' = waiters s" "children ?s' = (children s)[i := InFlight]"
      "sem_value ?s' = sem_value s - 1"
      by (simp_all add: enter_call_def)
    from count_update [OF i(1) f(2), of holds_permit] i(2)
    have "held ?s' = held s + 1" by (simp add: held_def)
    with v f inv have 1: "sem_value ?s' + held ?s' = C" by (simp add: sem_inv_def)
    have 2: "waiters_ok ?s'" by (rule waiters_ok_update [OF ok i(1) ni _ f(1,2)]) simp
    have 3: "\<not> (\<exists>k < length (children ?s'). children ?s' ! k = Waiting)"
      using 2 w f(1) unfolding waiters_ok_def by auto
    from 1 2 3 show ?thesis unfolding st sem_inv_def by blast
  next
    case True
    let ?s' = "s\<lparr>waiters := waiters s @ [i], children := (children s)[i := Waiting]\<rparr>"
    have st: "start_task i s = ?s'" using True by (simp add: start_task_def)
    have f: "children ?s' = (children s)[i := Waiting]" by simp
    from count_update [OF i(1) f, of holds_permit] i(2)
    have "held ?s' = held s" by (simp add: held_def)
    with inv have 1: "sem_value ?s' + held ?s' = C" by (simp add: sem_inv_def)
    have d: "distinct (waiters ?s')" using ok ni by (simp add: waiters_ok_def)
    have a: "\<forall>w \<in> set (waiters ?s'). w < length (children ?s') \<and>
        (children ?s' ! w = Waiting \<or> children ?s' ! w = Woken)"
      using ok i by (auto simp: waiters_ok_def nth_list_update)
    have b: "\<forall>j < length (children ?s'). children ?s' ! j = Waiting \<longrightarrow> j \<in> set (waiters ?s')"
      using ok i by (auto simp: waiters_ok_def nth_list_update)
    from d a b have 2: "waiters_ok ?s'" unfolding waiters_ok_def by blast
    from True have "sem_value s = 0 \<or> (\<exists>w. w \<in> set (waiters s))"
      by (cases "waiters s") (auto simp: locked_def)
    then have k: "sem_value s = 0 \<or> (\<exists>j < length (children s). children s ! j = Woken)"
      using inv by (auto simp: sem_inv_def waiters_ok_def)
    have 3: "sem_value ?s' = 0 \<or> (\<exists>j < length (children ?s'). children ?s' ! j = Woken)"
    proof (cases "sem_value s = 0")
      case True
      then show ?thesis by simp
    next
      case False
      with k obtain j where j: "j < length (children s)" "children s ! j = Woken" by blast
      with i(2) have "j \<noteq> i" by auto
      with j have "j < length (children ?s') \<and> children ?s' ! j = Woken" by simp
      then show ?thesis by blast
    qed
    from 1 2 3 show ?thesis unfolding st sem_inv_def by blast
  qed
qed

lemma resume_task_sem_inv:
  assumes inv: "sem_inv C s" and i: "i < length (children s)" "children s ! i = Woken"
  shows "sem_inv C (resume_task i s)"
proof -
  from inv have ok: "waiters_ok s" by (simp add: sem_inv_def)
  define s1 where "s1 = s\<lparr>waiters := remove1 i (waiters s)\<rparr>"
  define s2 where "s2 = (if sem_value s1 > 0 then wake_up_next s1 else s1)"
  have r: "resume_task i s = enter_call i s2"
    by (simp add: resume_task_def s1_def s2_def Let_def)
  have f1: "children s1 = children s" "sem_value s1 = sem_value s" "waiters s1 = remove1 i (waiters s)"
    by (simp_all add: s1_def)
  have d: "distinct (waiters s)" using ok by (simp add: waiters_ok_def)
  then have sw: "set (waiters s1) = set (waiters s) - {i}" by (simp add: f1)
  have ok1: "waiters_ok s1"
    unfolding waiters_ok_def using ok i(2) d by (auto simp: f1 waiters_ok_def)
  have h1: "sem_value s1 + held s1 = C"
    using inv by (simp add: sem_inv_def f1 held_def count_tasks_def)
  have ni: "i \<notin> set (waiters s1)" by (simp add: sw)
  have s2: "waiters s2 = waiters s1 \<and> length (children s2) = length (children s1) \<and>
      waiters_ok s2 \<and> sem_value s2 + held s2 = C \<and> children s2 ! i = Woken \<and>
      (\<forall>k. k < length (children s2) \<longrightarrow> children s2 ! k = Waiting \<longrightarrow>
         sem_value s2 = 0 \<or> (\<exists>j \<in> set (waiters s2). children s2 ! j = Woken))"
  proof (cases "sem_value s1 > 0")
    case False
    then have "s2 = s1" by (simp add: s2_def)
    with ok1 h1 i False show ?thesis by (simp add: f1)
  next
    case True
    then have e: "s2 = wake_up_next s1" by (simp add: s2_def)
    have wk: "woke s1 s2" unfolding e by (rule wake_cases)
    note fl = woke_fields [OF wk]
    have "children s2 ! i = Woken" using woke_nth [OF wk ok1, of i] i(2) by (simp add: f1)
    moreover have "sem_value s2 + held s2 = C" using woke_held [OF wk ok1 True] h1 by simp
    moreover have "waiters_ok s2" by (rule woke_waiters_ok [OF wk ok1])
    moreover have "\<forall>k. k < length (children s2) \<longrightarrow> children s2 ! k = Waiting \<longrightarrow>
         sem_value s2 = 0 \<or> (\<exists>j \<in> set (waiters s2). children s2 ! j = Woken)"
      using woke_someone [OF wk ok1] fl by auto
    ultimately show ?thesis using fl by simp
  qed
  let ?s' = "enter_call i s2"
  have f: "waiters ?s' = waiters s2" "children ?s' = (children s2)[i := InFlight]"
      "sem_value ?s' = sem_value s2"
    by (simp_all add: enter_call_def)
  have il: "i < length (children s2)" using s2 i(1) by (simp add: f1)
  have ni2: "i \<notin> set (waiters s2)" using s2 ni by simp
  from count_update [OF il f(2), of holds_permit] s2
  have "held ?s' = held s2" by (simp add: held_def)
  with s2 f have 1: "sem_value ?s' + held ?s' = C" by simp
  have 2: "waiters_ok ?s'"
    by (rule waiters_ok_update [OF _ il ni2 _ f(1,2)]) (use s2 in simp_all)
  from s2 have ok2: "waiters_ok s2" by simp
  have 3: "(\<exists>k < length (children ?s'). children ?s' ! k = Waiting) \<longrightarrow>
        sem_value ?s' = 0 \<or> (\<exists>j < length (children ?s'). children ?s' ! j = Woken)"
  proof (rule woken_witness_update [OF ok2 il ni2 _ f])
    fix k assume "k < length (children s2)" "children s2 ! k = Waiting"
    with s2 show "sem_value s2 = 0 \<or> (\<exists>j \<in> set (waiters s2). children s2 ! j = Woken)"
      by blast
  qed simp
  from 1 2 3 show ?thesis unfolding r sem_inv_def by blast
qed

lemma done_callback_fields:
  "sem_value (done_callback r s) = sem_value s \<and> waiters (done_callback r s) = waiters s \<and>
   children (done_callback r s) = children s \<and> calls (done_callback r s) = calls s \<and>
   nfinished (done_callback r s) = nfinished s + 1"
  by (simp add: done_callback_def Let_def split: sum.splits)

lemma finish_task_sem_inv:
  assumes inv: "sem_inv C s" and i: "i < length (children s)" "children s ! i = InFlight"
  shows "sem_inv C (finish_task op ps i s)"
proof -
  from inv have ok: "waiters_ok s" by (simp add: sem_inv_def)
  define s0 where "s0 = s\<lparr>sem_value := sem_value s + 1\<rparr>"
  define s1 where "s1 = release s"
  define s2 where "s2 = s1\<lparr>children := (children s1)[i := Done (op (ps ! i))]\<rparr>"
  have r: "finish_task op ps i s = done_callback (op (ps ! i)) s2"
    by (simp add: finish_task_def s1_def s2_def Let_def)
  have wk: "woke s0 s1" unfolding s1_def release_def s0_def by (rule wake_cases)
  have ok0: "waiters_ok s0" using ok by (simp add: s0_def waiters_ok_def)
  have f0: "children s0 = children s" "waiters s0 = waiters s" by (simp_all add: s0_def)
  note fl = woke_fields [OF wk]
  have h0: "sem_value s0 + held s0 = Suc C"
    using inv by (simp add: sem_inv_def s0_def held_def count_tasks_def)
  have v0: "0 < sem_value s0" by (simp add: s0_def)
  have h1: "sem_value s1 + held s1 = Suc C" using woke_held [OF wk ok0 v0] h0 by simp
  have ok1: "waiters_ok s1" by (rule woke_waiters_ok [OF wk ok0])
  have c1: "children s1 ! i = InFlight" using woke_nth [OF wk ok0, of i] i(2) by (simp add: f0)
  have il: "i < length (children s1)" using fl i(1) by (simp add: f0)
  have ni: "i \<notin> set (waiters s1)" using ok1 c1 by (auto simp: waiters_ok_def)
  have f: "waiters s2 = waiters s1" "children s2 = (children s1)[i := Done (op (ps ! i))]"
      "sem_value s2 = sem_value s1"
    by (simp_all add: s2_def)
  from count_update [OF il f(2), of holds_permit] c1
  have "held s2 + 1 = held s1" by (simp add: held_def)
  with h1 f have 1: "sem_value s2 + held s2 = C" by simp
  have 2: "waiters_ok s2"
    by (rule waiters_ok_update [OF ok1 il ni _ f(1,2)]) simp
  have 3: "(\<exists>k < length (children s2). children s2 ! k = Waiting) \<longrightarrow>
        sem_value s2 = 0 \<or> (\<exists>j < length (children s2). children s2 ! j = Woken)"
  proof (rule woken_witness_update [OF ok1 il ni _ f])
    fix k assume "k < length (children s1)" "children s1 ! k = Waiting"
    with woke_someone [OF wk ok0, of k] fl
    show "sem_value s1 = 0 \<or> (\<exists>j \<in> set (waiters s1). children s1 ! j = Woken)" by simp
  qed simp
  from 1 2 3 have "sem_inv C s2" unfolding sem_inv_def by blast
  then show ?thesis unfolding r
    using sem_inv_cong [of "done_callback (op (ps ! i)) s2" s2 C] done_callback_fields [of "op (ps ! i)" s2]
    by simp
qed

lemma step_sem_inv: "sem_inv C s \<Longrightarrow> sem_inv C (step op ps ev s)"
proof (cases ev)
  case (Run i)
  assume "sem_inv C s"
  then show ?thesis unfolding Run
    by (cases "children s ! i") (simp_all add: start_task_sem_inv resume_task_sem_inv)
next
  case (Complete i)
  assume "sem_inv C s"
  then show ?thesis unfolding Complete by (simp add: finish_task_sem_inv)
qed

subsection \<open>The invariant of gather is preserved by every event\<close>

lemma length_filter_cong:
  "length xs = length ys \<Longrightarrow> (\<And>j. j < length xs \<Longrightarrow> P (xs ! j) = P (ys ! j)) \<Longrightarrow>
     length (filter P xs) = length (filter P ys)"
proof (induction xs ys rule: list_induct2)
  case Nil
  then show ?case by simp
next
  case (Cons x xs y ys)
  from Cons.prems [of 0] have h: "P x = P y" by simp
  have t: "P (xs ! j) = P (ys ! j)" if "j < length xs" for j
    using Cons.prems [of "Suc j"] that by simp
  from Cons.IH [OF t] h show ?case by simp
qed

lemma length_filter_full:
  "length (filter P xs) = length xs \<Longrightarrow> x \<in> set xs \<Longrightarrow> P x"
proof (induction xs)
  case Nil
  then show ?case by simp
next
  case (Cons a xs)
  have le: "length (filter P xs) \<le> length xs" by (rule length_filter_le)
  show ?case
  proof (cases "P a")
    case True
    with Cons.prems(1) have "length (filter P xs) = length xs" by simp
    with Cons.IH Cons.prems(2) True show ?thesis by (cases "x = a") simp_all
  next
    case False
    with Cons.prems(1) le show ?thesis by simp
  qed
qed

lemma those_results:
  "(\<And>t. t \<in> set ts \<Longrightarrow> \<exists>v. t = Done (Inr v)) \<Longrightarrow>
     \<exists>vs. those (map task_result ts) = Some vs \<and> ts = map (\<lambda>v. Done (Inr v)) vs"
proof (induction ts)
  case Nil
  then show ?case by simp
next
  case (Cons t ts)
  from Cons.prems [of t] obtain v where t: "t = Done (Inr v)" by auto
  have "\<exists>vs. those (map task_result ts) = Some vs \<and> ts = map (\<lambda>v. Done (Inr v)) vs"
  proof (rule Cons.IH)
    fix u assume "u \<in> set ts"
    then show "\<exists>v. u = Done (Inr v)" using Cons.prems [of u] by simp
  qed
  then obtain vs where th: "those (map task_result ts) = Some vs"
    and ts: "ts = map (\<lambda>v. Done (Inr v)) vs"
    by blast
  from th t have A: "those (map task_result (t # ts)) = Some (v # vs)" by simp
  from ts t have B: "t # ts = map (\<lambda>v. Done (Inr v)) (v # vs)" by simp
  show ?case by (rule exI [of _ "v # vs"], rule conjI, rule A, rule B)
qed

lemma gather_inv_unfinished:
  assumes inv: "gather_inv op ps s"
    and f: "nfinished s' = nfinished s" "outer s' = outer s" "length (children s') = length (children s)"
    and c: "\<And>j. j < length (children s) \<Longrightarrow> children s' ! j = children s ! j \<or>
        (\<not> finished (children s ! j) \<and> \<not> finished (children s' ! j))"
  shows "gather_inv op ps s'"
proof -
  from inv have len: "length (children s) = length ps" by (simp add: gather_inv_def)
  have fin: "finished (children s' ! j) = finished (children s ! j)" if "j < length (children s')" for j
  proof -
    from that have "j < length (children s)" by (simp add: f(3))
    from c [OF this] show ?thesis by auto
  qed
  have done_eq: "children s' ! j = Done r \<longleftrightarrow> children s ! j = Done r" if "j < length ps" for j r
  proof -
    from that len have "j < length (children s)" by simp
    from c [OF this] show ?thesis by auto
  qed
  have 1: "length (children s') = length ps" using f len by simp
  have 2: "nfinished s' = count_tasks finished s'"
    using inv f(1) length_filter_cong [OF f(3) fin]
    by (simp add: gather_inv_def count_tasks_def)
  have 3: "\<forall>i < length ps. \<forall>r. children s' ! i = Done r \<longrightarrow> r = op (ps ! i)"
  proof (intro allI impI)
    fix i r assume i: "i < length ps" and "children s' ! i = Done r"
    with done_eq [OF i, of r] have "children s ! i = Done r" by simp
    with inv i show "r = op (ps ! i)" by (simp add: gather_inv_def)
  qed
  have 4: "(case outer s' of
        None \<Rightarrow> nfinished s' < length ps \<and> (\<forall>i < length ps. \<forall>e. children s' ! i \<noteq> Done (Inl e))
      | Some (Inl e) \<Rightarrow> (\<exists>i < length ps. children s' ! i = Done (Inl e))
      | Some (Inr vs) \<Rightarrow> children s' = map (\<lambda>v. Done (Inr v)) vs)"
  proof (cases "outer s")
    case None
    with inv have a: "nfinished s < length ps"
      and b: "\<forall>i < length ps. \<forall>e. children s ! i \<noteq> Done (Inl e)"
      by (simp_all add: gather_inv_def)
    have b': "\<forall>i < length ps. \<forall>e. children s' ! i \<noteq> Done (Inl e)"
    proof (intro allI impI)
      fix i e assume i: "i < length ps"
      with b have "children s ! i \<noteq> Done (Inl e)" by blast
      with done_eq [OF i, of "Inl e"] show "children s' ! i \<noteq> Done (Inl e)" by simp
    qed
    from None f(2) have "outer s' = None" by simp
    with a b' f(1) show ?thesis by simp
  next
    case (Some res)
    show ?thesis
    proof (cases res)
      case (Inl e)
      with Some inv obtain i where i: "i < length ps" "children s ! i = Done (Inl e)"
        by (auto simp: gather_inv_def)
      with done_eq [OF i(1), of "Inl e"] have "children s' ! i = Done (Inl e)" by simp
      with i(1) have "\<exists>i < length ps. children s' ! i = Done (Inl e)" by blast
      moreover from Some Inl f(2) have "outer s' = Some (Inl e)" by simp
      ultimately show ?thesis by simp
    next
      case (Inr vs)
      with Some inv have cs: "children s = map (\<lambda>v. Done (Inr v)) vs" by (simp add: gather_inv_def)
      have "children s' = children s"
      proof (rule nth_equalityI)
        show "length (children s') = length (children s)" by (rule f(3))
      next
        fix j assume "j < length (children s')"
        then have j: "j < length (children s)" by (simp add: f(3))
        then have "finished (children s ! j)" by (simp add: cs)
        with c [OF j] show "children s' ! j = children s ! j" by blast
      qed
      with Some Inr cs f show ?thesis by simp
    qed
  qed
  from 1 2 3 4 show ?thesis unfolding gather_inv_def by blast
qed

lemma start_task_gather_inv:
  assumes inv: "gather_inv op ps s" and i: "i < length (children s)" "children s ! i = Pending"
  shows "gather_inv op ps (start_task i s)"
proof (rule gather_inv_unfinished [OF inv])
  fix j assume "j < length (children s)"
  with i show "children (start_task i s) ! j = children s ! j \<or>
        (\<not> finished (children s ! j) \<and> \<not> finished (children (start_task i s) ! j))"
    by (cases "j = i") (simp_all add: start_task_def enter_call_def)
qed (simp_all add: start_task_def enter_call_def)

lemma resume_task_gather_inv:
  assumes inv: "gather_inv op ps s" and ok: "waiters_ok s"
    and i: "i < length (children s)" "children s ! i = Woken"
  shows "gather_inv op ps (resume_task i s)"
proof -
  define s1 where "s1 = s\<lparr>waiters := remove1 i (waiters s)\<rparr>"
  define s2 where "s2 = (if sem_value s1 > 0 then wake_up_next s1 else s1)"
  have r: "resume_task i s = enter_call i s2"
    by (simp add: resume_task_def s1_def s2_def Let_def)
  have f1: "children s1 = children s" "nfinished s1 = nfinished s" "outer s1 = outer s"
    by (simp_all add: s1_def)
  have d: "distinct (waiters s)" using ok by (simp add: waiters_ok_def)
  have ok1: "waiters_ok s1"
    unfolding waiters_ok_def using ok i(2) d by (auto simp: s1_def waiters_ok_def)
  have wk: "woke s1 s2 \<or> s2 = s1" unfolding s2_def using wake_cases [of s1] by simp
  have fl: "nfinished s2 = nfinished s \<and> outer s2 = outer s \<and>
      length (children s2) = length (children s)"
    using wk woke_fields [of s1 s2] f1 by auto
  have nth2: "children s2 ! j = children s ! j \<or>
     (children s ! j = Waiting \<and> children s2 ! j = Woken)" for j
    using wk woke_nth [of s1 s2 j] ok1 f1 by auto
  show ?thesis unfolding r
  proof (rule gather_inv_unfinished [OF inv])
    fix j assume j: "j < length (children s)"
    show "children (enter_call i s2) ! j = children s ! j \<or>
        (\<not> finished (children s ! j) \<and> \<not> finished (children (enter_call i s2) ! j))"
    proof (cases "j = i")
      case True
      with i fl show ?thesis by (simp add: enter_call_def)
    next
      case False
      with nth2 [of j] show ?thesis by (auto simp: enter_call_def)
    qed
  qed (simp_all add: enter_call_def fl)
qed

lemma finish_task_gather_inv:
  assumes inv: "gather_inv op ps s" and ok: "waiters_ok s"
    and i: "i < length (children s)" "children s ! i = InFlight"
  shows "gather_inv op ps (finish_task op ps i s)"
proof -
  define r where "r = op (ps ! i)"
  define s0 where "s0 = s\<lparr>sem_value := sem_value s + 1\<rparr>"
  define s1 where "s1 = release s"
  define s2 where "s2 = s1\<lparr>children := (children s1)[i := Done r]\<rparr>"
  define s' where "s' = done_callback r s2"
  have fin: "finish_task op ps i s = s'"
    by (simp add: finish_task_def s1_def s2_def s'_def r_def Let_def)
  from inv have len: "length (children s) = length ps" by (simp add: gather_inv_def)
  have wk: "woke s0 s1" unfolding s1_def release_def s0_def by (rule wake_cases)
  have ok0: "waiters_ok s0" using ok by (simp add: s0_def waiters_ok_def)
  have f0: "children s0 = children s" "nfinished s0 = nfinished s" "outer s0 = outer s"
    by (simp_all add: s0_def)
  note fl = woke_fields [OF wk]
  have nth1: "children s1 ! j = children s ! j \<or>
     (children s ! j = Waiting \<and> children s1 ! j = Woken)" for j
    using woke_nth [OF wk ok0, of j] f0 by auto
  have g1: "gather_inv op ps s1"
  proof (rule gather_inv_unfinished [OF inv])
    fix j assume "j < length (children s)"
    from nth1 [of j] show "children s1 ! j = children s ! j \<or>
        (\<not> finished (children s ! j) \<and> \<not> finished (children s1 ! j))" by auto
  qed (simp_all add: fl f0)
  have c1: "children s1 ! i = InFlight" using nth1 [of i] i(2) by simp
  have il: "i < length (children s1)" using fl i(1) f0 by simp
  have len1: "length (children s1) = length ps" using fl f0 len by simp
  have ch2: "children s2 = (children s1)[i := Done r]" by (simp add: s2_def)
  have o2: "outer s2 = outer s1" "nfinished s2 = nfinished s1" by (simp_all add: s2_def)
  have cs': "children s' = children s2" "nfinished s' = nfinished s2 + 1"
    using done_callback_fields [of r s2] by (simp_all add: s'_def)
  from count_update [OF il ch2, of finished] c1
  have cnt: "count_tasks finished s2 = count_tasks finished s1 + 1" by simp
  have 1: "length (children s') = length ps" using len1 by (simp add: cs' ch2)
  have 2: "nfinished s' = count_tasks finished s'"
    using g1 cnt cs' o2 by (simp add: gather_inv_def count_tasks_def)
  have d2: "r' = op (ps ! j)" if "j < length ps" "children s2 ! j = Done r'" for j r'
  proof (cases "j = i")
    case True
    with that il show ?thesis by (simp add: ch2 r_def)
  next
    case False
    with that have "children s1 ! j = Done r'" by (simp add: ch2)
    with g1 that(1) show ?thesis by (simp add: gather_inv_def)
  qed
  have 3: "\<forall>j < length ps. \<forall>r'. children s' ! j = Done r' \<longrightarrow> r' = op (ps ! j)"
    using d2 by (simp add: cs')
  have le: "count_tasks finished s2 \<le> length ps"
    using length_filter_le [of finished "children s2"] len1 by (simp add: count_tasks_def ch2)
  have 4: "(case outer s' of
        None \<Rightarrow> nfinished s' < length ps \<and> (\<forall>i < length ps. \<forall>e. children s' ! i \<noteq> Done (Inl e))
      | Some (Inl e) \<Rightarrow> (\<exists>i < length ps. children s' ! i = Done (Inl e))
      | Some (Inr vs) \<Rightarrow> children s' = map (\<lambda>v. Done (Inr v)) vs)"
  proof (cases "outer s1")
    case (Some res)
    then have os': "outer s' = Some res" by (simp add: s'_def done_callback_def Let_def o2 s2_def)
    show ?thesis
    proof (cases res)
      case (Inl e)
      with Some g1 obtain j where j: "j < length ps" "children s1 ! j = Done (Inl e)"
        by (auto simp: gather_inv_def)
      with c1 have "j \<noteq> i" by auto
      with j have "children s' ! j = Done (Inl e)" by (simp add: cs' ch2)
      with j(1) have "\<exists>j < length ps. children s' ! j = Done (Inl e)" by blast
      with os' Inl show ?thesis by simp
    next
      case (Inr vs)
      with Some g1 have "children s1 = map (\<lambda>v. Done (Inr v)) vs" by (simp add: gather_inv_def)
      with il have "children s1 ! i = Done (Inr (vs ! i))" by simp
      with c1 show ?thesis by simp
    qed
  next
    case None
    with g1 have nf: "\<forall>j < length ps. \<forall>e. children s1 ! j \<noteq> Done (Inl e)"
      by (simp add: gather_inv_def)
    from None have on2: "outer s2 = None" by (simp add: o2)
    show ?thesis
    proof (cases r)
      case (Inl e)
      then have "outer s' = Some (Inl e)" using on2 by (simp add: s'_def done_callback_def Let_def)
      moreover have "children s' ! i = Done (Inl e)" using il Inl by (simp add: cs' ch2)
      moreover have "i < length ps" using i(1) len by simp
      ultimately show ?thesis by auto
    next
      case (Inr v)
      have nf2: "children s2 ! j \<noteq> Done (Inl e)" if "j < length ps" for j e
      proof (cases "j = i")
        case True
        with il Inr show ?thesis by (simp add: ch2)
      next
        case False
        with nf that show ?thesis by (simp add: ch2)
      qed
      show ?thesis
      proof (cases "nfinished s2 + 1 = length (children s2)")
        case False
        then have "outer s' = None" using on2 Inr
          by (simp add: s'_def done_callback_def Let_def)
        moreover have "nfinished s' < length ps"
          using False 2 le cs' len1 by (simp add: ch2 count_tasks_def)
        ultimately show ?thesis using nf2 by (simp add: cs')
      next
        case True
        then have "count_tasks finished s2 = length (children s2)"
          using 2 cs' by (simp add: count_tasks_def)
        then have full: "length (filter finished (children s2)) = length (children s2)"
          by (simp add: count_tasks_def)
        have "\<exists>vs. those (map task_result (children s2)) = Some vs \<and>
            children s2 = map (\<lambda>v. Done (Inr v)) vs"
        proof (rule those_results)
          fix t assume t: "t \<in> set (children s2)"
          from length_filter_full [OF full t] obtain r' where r': "t = Done r'"
            by (cases t) simp_all
          from t obtain j where j: "j < length (children s2)" "children s2 ! j = t"
            by (auto simp: in_set_conv_nth)
          then have "j < length ps" using len1 by (simp add: ch2)
          from nf2 [OF this] j r' show "\<exists>v. t = Done (Inr v)" by (cases r') auto
        qed
        then obtain vs where vs: "those (map task_result (children s2)) = Some vs"
          "children s2 = map (\<lambda>v. Done (Inr v)) vs" by blast
        have "outer s' = Some (Inr vs)" using on2 Inr True vs(1)
          by (simp add: s'_def done_callback_def Let_def)
        with vs(2) show ?thesis by (simp add: cs')
      qed
    qed
  qed
  from 1 2 3 4 show ?thesis unfolding fin gather_inv_def by blast
qed

lemma step_gather_inv:
  assumes "gather_inv op ps s" "waiters_ok s"
  shows "gather_inv op ps (step op ps ev s)"
proof (cases ev)
  case (Run i)
  from assms show ?thesis unfolding Run
    by (cases "children s ! i") (simp_all add: start_task_gather_inv resume_task_gather_inv)
next
  case (Complete i)
  from assms show ?thesis unfolding Complete by (simp add: finish_task_gather_inv)
qed

subsection \<open>Every state of a dispatch satisfies both invariants\<close>

lemma gather_init_sem_inv: "sem_inv C (gather_init C ps)"
  by (auto simp: sem_inv_def gather_init_def held_def count_tasks_def waiters_ok_def)

lemma gather_init_gather_inv: "gather_inv op ps (gather_init C ps)"
  by (auto simp: gather_inv_def gather_init_def count_tasks_def)

lemma run_loop_snoc: "run_loop op ps (es @ [e]) s = step op ps e (run_loop op ps es s)"
  by (simp add: run_loop_def)


lemma run_loop_inv:
  assumes "sem_inv C s" "gather_inv op ps s"
  shows "sem_inv C (run_loop op ps es s) \<and> gather_inv op ps (run_loop op ps es s)"
proof (induction es rule: rev_induct)
  case Nil
  from assms show ?case by (simp add: run_loop_def)
next
  case (snoc e es)
  then have "waiters_ok (run_loop op ps es s)" by (simp add: sem_inv_def)
  with snoc show ?case by (simp add: run_loop_snoc step_sem_inv step_gather_inv)
qed

lemma dispatch_inv:
  "sem_inv C (dispatch C op ps es) \<and> gather_inv op ps (dispatch C op ps es)"
  unfolding dispatch_def by (rule run_loop_inv [OF gather_init_sem_inv gather_init_gather_inv])

subsection \<open>Progress and termination\<close>

lemma step_disabled: "\<not> enabled ev s \<Longrightarrow> step op ps ev s = s"
  by (cases ev; cases "children s ! (case ev of Run i \<Rightarrow> i | Complete i \<Rightarrow> i)") auto

lemma start_task_rank:
  assumes i: "i < length (children s)" "children s ! i = Pending"
  shows "rank_sum (start_task i s) < rank_sum s"
proof (cases "locked s")
  case False
  then have c: "children (start_task i s) = (children s)[i := InFlight]"
    by (simp add: start_task_def enter_call_def)
  from rank_update [OF i(1) c] i(2) show ?thesis by simp
next
  case True
  then have c: "children (start_task i s) = (children s)[i := Waiting]"
    by (simp add: start_task_def)
  from rank_update [OF i(1) c] i(2) show ?thesis by simp
qed

lemma resume_task_rank:
  assumes ok: "waiters_ok s" and i: "i < length (children s)" "children s ! i = Woken"
  shows "rank_sum (resume_task i s) < rank_sum s"
proof -
  define s1 where "s1 = s\<lparr>waiters := remove1 i (waiters s)\<rparr>"
  define s2 where "s2 = (if sem_value s1 > 0 then wake_up_next s1 else s1)"
  have r: "resume_task i s = enter_call i s2"
    by (simp add: resume_task_def s1_def s2_def Let_def)
  have f1: "children s1 = children s" by (simp add: s1_def)
  have d: "distinct (waiters s)" using ok by (simp add: waiters_ok_def)
  have ok1: "waiters_ok s1"
    unfolding waiters_ok_def using ok i(2) d by (auto simp: s1_def waiters_ok_def)
  have wk: "woke s1 s2 \<or> s2 = s1" unfolding s2_def using wake_cases [of s1] by simp
  have le: "rank_sum s2 \<le> rank_sum s"
    using wk woke_rank [of s1 s2] ok1 by (auto simp: rank_sum_def f1)
  have l2: "length (children s2) = length (children s)"
    using wk woke_fields [of s1 s2] f1 by auto
  have c2: "children s2 ! i = Woken"
    using wk woke_nth [of s1 s2 i] ok1 i(2) f1 by auto
  have c: "children (enter_call i s2) = (children s2)[i := InFlight]"
    by (simp add: enter_call_def)
  from i(1) l2 have "i < length (children s2)" by simp
  from rank_update [OF this c] c2 le show ?thesis unfolding r by simp
qed

lemma finish_task_rank:
  assumes ok: "waiters_ok s" and i: "i < length (children s)" "children s ! i = InFlight"
  shows "rank_sum (finish_task op ps i s) < rank_sum s"
proof -
  define r where "r = op (ps ! i)"
  define s0 where "s0 = s\<lparr>sem_value := sem_value s + 1\<rparr>"
  define s1 where "s1 = release s"
  define s2 where "s2 = s1\<lparr>children := (children s1)[i := Done r]\<rparr>"
  have fin: "finish_task op ps i s = done_callback r s2"
    by (simp add: finish_task_def s1_def s2_def r_def Let_def)
  have wk: "woke s0 s1" unfolding s1_def release_def s0_def by (rule wake_cases)
  have ok0: "waiters_ok s0" using ok by (simp add: s0_def waiters_ok_def)
  have f0: "children s0 = children s" by (simp add: s0_def)
  have le: "rank_sum s1 \<le> rank_sum s"
    using woke_rank [OF wk ok0] by (simp add: rank_sum_def f0)
  have c1: "children s1 ! i = InFlight" using woke_nth [OF wk ok0, of i] i(2) by (simp add: f0)
  have il: "i < length (children s1)" using woke_fields [OF wk] i(1) by (simp add: f0)
  have c: "children (done_callback r s2) = (children s1)[i := Done r]"
    using done_callback_fields [of r s2] by (simp add: s2_def)
  from rank_update [OF il c] c1 le show ?thesis unfolding fin by simp
qed

lemma step_rank:
  assumes "waiters_ok s" "enabled ev s"
  shows "rank_sum (step op ps ev s) < rank_sum s"
proof (cases ev)
  case (Run i)
  with assms show ?thesis by (auto simp: start_task_rank resume_task_rank)
next
  case (Complete i)
  with assms show ?thesis by (simp add: finish_task_rank)
qed

lemma held_pos_holder:
  assumes "0 < held s"
  shows "\<exists>k < length (children s). children s ! k = Woken \<or> children s ! k = InFlight"
proof -
  from assms have "filter holds_permit (children s) \<noteq> []"
    by (simp add: held_def count_tasks_def)
  then obtain t where t: "t \<in> set (children s)" "holds_permit t"
    by (auto simp: filter_empty_conv)
  then obtain k where k: "k < length (children s)" "children s ! k = t"
    by (auto simp: in_set_conv_nth)
  from t(2) have "t = Woken \<or> t = InFlight" by (cases t) simp_all
  with k show ?thesis by blast
qed

lemma progress:
  assumes C: "1 \<le> C" and inv: "sem_inv C s" and nd: "\<not> all_done s"
  shows "\<exists>ev. enabled ev s"
proof -
  from nd obtain t where "t \<in> set (children s)" "\<not> finished t"
    by (auto simp: all_done_def list_all_iff)
  then obtain i where i: "i < length (children s)" "\<not> finished (children s ! i)"
    by (auto simp: in_set_conv_nth)
  have holder: "\<exists>ev. enabled ev s"
    if "k < length (children s)" "children s ! k = Woken \<or> children s ! k = InFlight" for k
  proof (cases "children s ! k = Woken")
    case True
    with that have "enabled (Run k) s" by simp
    then show ?thesis by blast
  next
    case False
    with that have "enabled (Complete k) s" by simp
    then show ?thesis by blast
  qed
  show ?thesis
  proof (cases "children s ! i")
    case Pending
    with i have "enabled (Run i) s" by simp
    then show ?thesis by blast
  next
    case Waiting
    with i inv have "sem_value s = 0 \<or> (\<exists>j < length (children s). children s ! j = Woken)"
      unfolding sem_inv_def by blast
    then show ?thesis
    proof
      assume "sem_value s = 0"
      with inv C have "0 < held s" by (simp add: sem_inv_def)
      from held_pos_holder [OF this] holder show ?thesis by blast
    next
      assume "\<exists>j < length (children s). children s ! j = Woken"
      with holder show ?thesis by blast
    qed
  next
    case Woken
    with i holder show ?thesis by blast
  next
    case InFlight
    with i holder show ?thesis by blast
  next
    case (Done r)
    with i show ?thesis by simp
  qed
qed


subsection \<open>What the invariants say about the result\<close>


lemma all_done_held: "all_done s \<Longrightarrow> held s = 0"
proof -
  assume a: "all_done s"
  have "filter holds_permit (children s) = []"
  proof (simp add: filter_empty_conv, intro ballI)
    fix t assume "t \<in> set (children s)"
    with a have "finished t" by (simp add: all_done_def list_all_iff)
    then show "\<not> holds_permit t" by (cases t) simp_all
  qed
  then show ?thesis by (simp add: held_def count_tasks_def)
qed

lemma in_flight_le_held: "in_flight s \<le> held s"
proof -
  have "length (filter (\<lambda>t. t = InFlight) xs) \<le> length (filter holds_permit xs)"
    for xs :: "('a, 'b) task list"
    by (induction xs) auto
  then show ?thesis by (simp add: in_flight_def held_def count_tasks_def)
qed



lemmas loop_defs = dispatch_def run_loop_def gather_init_def start_task_def locked_def
  enter_call_def finish_task_def release_def wake_up_next_def done_callback_def resume_task_def
  Let_def



text \<open>
  The example itself, with its limit of 5 and its 20 records: when the insertion of
  record 2 fails while the other calls are pending, the \<^verbatim>\<open>await\<close> raises.
\<close>

lemma example_custom_concurrency_raises:
  "example_custom_concurrency demo_op (map Run [0..<20] @ [Complete 2]) = Some (Inl NotFound)"
  by (simp add: example_custom_concurrency_def loop_defs max_concurrent_def records_def
      demo_op_def upt_rec)

section \<open>Lemmas about the script\<close>

subsection \<open>Ending and cancelling a task keep the invariant of the semaphore\<close>

lemma end_task_sem_inv:
  assumes inv: "sem_inv C s" and i: "i < length (children s)" "holds_permit (children s ! i)"
    "i \<notin> set (waiters s)"
  shows "sem_inv C (end_task r i s)"
proof -
  from inv have ok: "waiters_ok s" by (simp add: sem_inv_def)
  define s0 where "s0 = s\<lparr>sem_value := sem_value s + 1\<rparr>"
  define s1 where "s1 = release s"
  define s2 where "s2 = s1\<lparr>children := (children s1)[i := Done r]\<rparr>"
  have e: "end_task r i s = s2" by (simp add: end_task_def s1_def s2_def Let_def)
  have wk: "woke s0 s1" unfolding s1_def release_def s0_def by (rule wake_cases)
  have ok0: "waiters_ok s0" using ok by (simp add: s0_def waiters_ok_def)
  have f0: "children s0 = children s" "waiters s0 = waiters s" by (simp_all add: s0_def)
  note fl = woke_fields [OF wk]
  have h0: "sem_value s0 + held s0 = Suc C"
    using inv by (simp add: sem_inv_def s0_def held_def count_tasks_def)
  have v0: "0 < sem_value s0" by (simp add: s0_def)
  have h1: "sem_value s1 + held s1 = Suc C" using woke_held [OF wk ok0 v0] h0 by simp
  have ok1: "waiters_ok s1" by (rule woke_waiters_ok [OF wk ok0])
  from i(2) have nw: "children s ! i \<noteq> Waiting" by auto
  have c1: "children s1 ! i = children s ! i" using woke_nth [OF wk ok0, of i] nw by (simp add: f0)
  have il: "i < length (children s1)" using fl i(1) by (simp add: f0)
  have ni: "i \<notin> set (waiters s1)" using fl i(3) by (simp add: f0)
  have f: "waiters s2 = waiters s1" "children s2 = (children s1)[i := Done r]"
      "sem_value s2 = sem_value s1"
    by (simp_all add: s2_def)
  from count_update [OF il f(2), of holds_permit] c1 i(2)
  have "held s2 + 1 = held s1" by (simp add: held_def)
  with h1 f have 1: "sem_value s2 + held s2 = C" by simp
  have 2: "waiters_ok s2"
    by (rule waiters_ok_update [OF ok1 il ni _ f(1,2)]) simp
  have 3: "(\<exists>k < length (children s2). children s2 ! k = Waiting) \<longrightarrow>
        sem_value s2 = 0 \<or> (\<exists>j < length (children s2). children s2 ! j = Woken)"
  proof (rule woken_witness_update [OF ok1 il ni _ f])
    fix k assume "k < length (children s1)" "children s1 ! k = Waiting"
    with woke_someone [OF wk ok0, of k] fl
    show "sem_value s1 = 0 \<or> (\<exists>j \<in> set (waiters s1). children s1 ! j = Woken)" by simp
  qed simp
  from 1 2 3 show ?thesis unfolding e sem_inv_def by blast
qed

lemma sem_inv_remove_woken:
  assumes inv: "sem_inv C s" and i: "children s ! i = Woken"
  shows "sem_inv C (s\<lparr>waiters := remove1 i (waiters s)\<rparr>)"
    and "i \<notin> set (waiters (s\<lparr>waiters := remove1 i (waiters s)\<rparr>))"
proof -
  let ?s' = "s\<lparr>waiters := remove1 i (waiters s)\<rparr>"
  from inv have ok: "waiters_ok s" by (simp add: sem_inv_def)
  then have d: "distinct (waiters s)" by (simp add: waiters_ok_def)
  show ni: "i \<notin> set (waiters ?s')" using d by simp
  have ok': "waiters_ok ?s'"
    unfolding waiters_ok_def using ok i d by (auto simp: waiters_ok_def)
  have h: "held ?s' = held s" by (simp add: held_def count_tasks_def)
  from inv h ok' show "sem_inv C ?s'" by (simp add: sem_inv_def)
qed

lemma sem_inv_cancel_pending:
  assumes inv: "sem_inv C s" and i: "i < length (children s)" "children s ! i = Pending"
  shows "sem_inv C (s\<lparr>children := (children s)[i := Done r]\<rparr>)"
proof -
  let ?s' = "s\<lparr>children := (children s)[i := Done r]\<rparr>"
  from inv have ok: "waiters_ok s" by (simp add: sem_inv_def)
  from ok i have ni: "i \<notin> set (waiters s)" by (auto simp: waiters_ok_def)
  have f: "waiters ?s' = waiters s" "children ?s' = (children s)[i := Done r]" by simp_all
  from count_update [OF i(1) f(2), of holds_permit] i(2)
  have "held ?s' = held s" by (simp add: held_def)
  with inv have 1: "sem_value ?s' + held ?s' = C" by (simp add: sem_inv_def)
  have 2: "waiters_ok ?s'" by (rule waiters_ok_update [OF ok i(1) ni _ f]) simp
  have 3: "(\<exists>k < length (children ?s'). children ?s' ! k = Waiting) \<longrightarrow>
        sem_value ?s' = 0 \<or> (\<exists>j < length (children ?s'). children ?s' ! j = Woken)"
  proof
    assume "\<exists>k < length (children ?s'). children ?s' ! k = Waiting"
    then obtain k where k: "k < length (children ?s')" "children ?s' ! k = Waiting" by blast
    then have "k \<noteq> i" by auto
    with k have "k < length (children s)" "children s ! k = Waiting" by simp_all
    with inv have "sem_value s = 0 \<or> (\<exists>j < length (children s). children s ! j = Woken)"
      unfolding sem_inv_def by blast
    then show "sem_value ?s' = 0 \<or> (\<exists>j < length (children ?s'). children ?s' ! j = Woken)"
    proof
      assume "sem_value s = 0" then show ?thesis by simp
    next
      assume "\<exists>j < length (children s). children s ! j = Woken"
      then obtain j where j: "j < length (children s)" "children s ! j = Woken" by blast
      with i(2) have "j \<noteq> i" by auto
      with j have "j < length (children ?s') \<and> children ?s' ! j = Woken" by simp
      then show ?thesis by blast
    qed
  qed
  from 1 2 3 show ?thesis unfolding sem_inv_def by blast
qed

lemma sem_inv_cancel_waiting:
  assumes inv: "sem_inv C s" and i: "i < length (children s)" "children s ! i = Waiting"
  shows "sem_inv C (s\<lparr>waiters := remove1 i (waiters s), children := (children s)[i := Done r]\<rparr>)"
proof -
  let ?s' = "s\<lparr>waiters := remove1 i (waiters s), children := (children s)[i := Done r]\<rparr>"
  from inv have ok: "waiters_ok s" by (simp add: sem_inv_def)
  then have d: "distinct (waiters s)" by (simp add: waiters_ok_def)
  have f: "children ?s' = (children s)[i := Done r]" by simp
  from count_update [OF i(1) f, of holds_permit] i(2)
  have "held ?s' = held s" by (simp add: held_def)
  with inv have 1: "sem_value ?s' + held ?s' = C" by (simp add: sem_inv_def)
  have a: "\<forall>w \<in> set (waiters ?s'). w < length (children ?s') \<and>
        (children ?s' ! w = Waiting \<or> children ?s' ! w = Woken)"
  proof
    fix w assume "w \<in> set (waiters ?s')"
    with d have w: "w \<in> set (waiters s)" "w \<noteq> i" by auto
    with ok have "w < length (children s) \<and>
        (children s ! w = Waiting \<or> children s ! w = Woken)" unfolding waiters_ok_def by blast
    with w(2) show "w < length (children ?s') \<and>
        (children ?s' ! w = Waiting \<or> children ?s' ! w = Woken)" by simp
  qed
  have b: "\<forall>k < length (children ?s'). children ?s' ! k = Waiting \<longrightarrow> k \<in> set (waiters ?s')"
  proof (intro allI impI)
    fix k assume k: "k < length (children ?s')" "children ?s' ! k = Waiting"
    then have ki: "k \<noteq> i" by auto
    with k have "k < length (children s) \<and> children s ! k = Waiting" by simp
    with ok have "k \<in> set (waiters s)" unfolding waiters_ok_def by blast
    with ki d show "k \<in> set (waiters ?s')" by simp
  qed
  have d': "distinct (waiters ?s')" using d by simp
  have 2: "waiters_ok ?s'" unfolding waiters_ok_def by (intro conjI d' a b)
  have 3: "(\<exists>k < length (children ?s'). children ?s' ! k = Waiting) \<longrightarrow>
        sem_value ?s' = 0 \<or> (\<exists>j < length (children ?s'). children ?s' ! j = Woken)"
  proof
    assume "\<exists>k < length (children ?s'). children ?s' ! k = Waiting"
    then obtain k where k: "k < length (children ?s')" "children ?s' ! k = Waiting" by blast
    then have "k \<noteq> i" by auto
    with k have "k < length (children s)" "children s ! k = Waiting" by simp_all
    with inv have "sem_value s = 0 \<or> (\<exists>j < length (children s). children s ! j = Woken)"
      unfolding sem_inv_def by blast
    then show "sem_value ?s' = 0 \<or> (\<exists>j < length (children ?s'). children ?s' ! j = Woken)"
    proof
      assume "sem_value s = 0" then show ?thesis by simp
    next
      assume "\<exists>j < length (children s). children s ! j = Woken"
      then obtain j where j: "j < length (children s)" "children s ! j = Woken" by blast
      with i(2) have "j \<noteq> i" by auto
      with j have "j < length (children ?s') \<and> children ?s' ! j = Woken" by simp
      then show ?thesis by blast
    qed
  qed
  from 1 2 3 show ?thesis unfolding sem_inv_def by blast
qed

lemma cancel_task_sem_inv:
  assumes inv: "sem_inv C s" and i: "i < length (children s)"
  shows "sem_inv C (cancel_task i s)"
proof (cases "children s ! i")
  case Pending
  with sem_inv_cancel_pending [OF inv i] show ?thesis by (simp add: cancel_task_def)
next
  case Waiting
  with sem_inv_cancel_waiting [OF inv i] show ?thesis by (simp add: cancel_task_def)
next
  case Woken
  let ?s1 = "s\<lparr>waiters := remove1 i (waiters s)\<rparr>"
  note r = sem_inv_remove_woken [OF inv Woken]
  have "sem_inv C (end_task (Inl CancelledError) i ?s1)"
    by (rule end_task_sem_inv [OF r(1) _ _ r(2)]) (use i Woken in simp_all)
  with Woken show ?thesis by (simp add: cancel_task_def)
next
  case InFlight
  from inv have "waiters_ok s" by (simp add: sem_inv_def)
  with InFlight have ni: "i \<notin> set (waiters s)" by (auto simp: waiters_ok_def)
  have "sem_inv C (end_task (Inl CancelledError) i s)"
    by (rule end_task_sem_inv [OF inv i _ ni]) (simp add: InFlight)
  with InFlight show ?thesis by (simp add: cancel_task_def)
next
  case (Done r)
  with inv show ?thesis by (simp add: cancel_task_def)
qed

lemma script_step_sem_inv:
  assumes "sem_inv C (lp s)"
  shows "sem_inv C (lp (script_step op ps ev s))"
proof (cases ev)
  case (SRun i)
  have "sem_inv C (step (lift_op op) ps (Run i) (lp s))" by (rule step_sem_inv [OF assms])
  then show ?thesis unfolding SRun by (simp del: step.simps)
next
  case (SComplete i)
  show ?thesis
  proof (cases "i < length (children (lp s)) \<and> children (lp s) ! i = InFlight")
    case True
    from assms have "waiters_ok (lp s)" by (simp add: sem_inv_def)
    with True have ni: "i \<notin> set (waiters (lp s))" by (auto simp: waiters_ok_def)
    have "sem_inv C (end_task (lift_op op (ps ! i)) i (lp s))"
      by (rule end_task_sem_inv [OF assms _ _ ni]) (use True in simp_all)
    with True SComplete show ?thesis by simp
  next
    case False
    with assms SComplete show ?thesis by auto
  qed
next
  case (SNotify i)
  have "sem_inv C (done_callback r (lp s))" for r
    using sem_inv_cong [of "done_callback r (lp s)" "lp s" C] done_callback_fields [of r "lp s"] assms
    by simp
  with assms SNotify show ?thesis by (simp split: task.splits)
next
  case (SCancel i)
  with assms show ?thesis by (simp add: cancel_task_sem_inv)
qed

subsection \<open>Steps that move only tasks that are not done\<close>

lemma moved_refl: "moved s s"
  by (simp add: moved_def)

lemma moved_nth:
  assumes "moved s s'" "j < length (children s)"
  shows "children s' ! j = children s ! j \<or>
        (\<not> finished (children s ! j) \<and> \<not> finished (children s' ! j))"
  using assms unfolding moved_def by blast

lemma moved_fields:
  assumes "moved s s'"
  shows "length (children s') = length (children s)" "nfinished s' = nfinished s"
    "outer s' = outer s"
  using assms unfolding moved_def by blast+

lemma movedI:
  assumes "length (children s') = length (children s)" "nfinished s' = nfinished s"
    "outer s' = outer s"
    and "\<And>j. j < length (children s) \<Longrightarrow> children s' ! j = children s ! j \<or>
        (\<not> finished (children s ! j) \<and> \<not> finished (children s' ! j))"
  shows "moved s s'"
  using assms unfolding moved_def by blast

lemma moved_trans:
  assumes a: "moved s s'" and b: "moved s' s''"
  shows "moved s s''"
proof (rule movedI)
  fix j assume j: "j < length (children s)"
  then have j': "j < length (children s')" using moved_fields(1) [OF a] by simp
  from moved_nth [OF a j] moved_nth [OF b j']
  show "children s'' ! j = children s ! j \<or>
        (\<not> finished (children s ! j) \<and> \<not> finished (children s'' ! j))" by auto
qed (simp_all add: moved_fields [OF a] moved_fields [OF b])

lemma moved_finished:
  assumes "moved s s'" "j < length (children s)"
  shows "finished (children s' ! j) = finished (children s ! j)"
  using moved_nth [OF assms] by auto

lemma moved_done:
  assumes "moved s s'" "j < length (children s)"
  shows "(children s' ! j = Done r) = (children s ! j = Done r)"
  using moved_nth [OF assms] by auto

lemma moved_count:
  assumes "moved s s'"
  shows "count_tasks finished s' = count_tasks finished s"
proof -
  have "length (filter finished (children s')) = length (filter finished (children s))"
  proof (rule length_filter_cong [OF moved_fields(1) [OF assms]])
    fix j assume "j < length (children s')"
    then have "j < length (children s)" by (simp add: moved_fields(1) [OF assms])
    then show "finished (children s' ! j) = finished (children s ! j)"
      by (rule moved_finished [OF assms])
  qed
  then show ?thesis by (simp add: count_tasks_def)
qed

lemma moved_woke:
  assumes wk: "woke s s'" and ok: "waiters_ok s"
  shows "moved s s'"
proof (rule movedI)
  fix j assume "j < length (children s)"
  from woke_nth [OF wk ok, of j]
  show "children s' ! j = children s ! j \<or>
        (\<not> finished (children s ! j) \<and> \<not> finished (children s' ! j))" by auto
qed (simp_all add: woke_fields [OF wk])

lemma moved_release:
  assumes ok: "waiters_ok s"
  shows "moved s (release s)"
proof -
  define s0 where "s0 = s\<lparr>sem_value := sem_value s + 1\<rparr>"
  have wk: "woke s0 (release s)" unfolding release_def s0_def by (rule wake_cases)
  have ok0: "waiters_ok s0" using ok by (simp add: s0_def waiters_ok_def)
  have "moved s s0" by (simp add: moved_def s0_def)
  from moved_trans [OF this moved_woke [OF wk ok0]] show ?thesis .
qed

lemma moved_start_task:
  assumes i: "i < length (children s)" "children s ! i = Pending"
  shows "moved s (start_task i s)"
proof (rule movedI)
  fix j assume "j < length (children s)"
  with i show "children (start_task i s) ! j = children s ! j \<or>
        (\<not> finished (children s ! j) \<and> \<not> finished (children (start_task i s) ! j))"
    by (cases "j = i") (simp_all add: start_task_def enter_call_def)
qed (simp_all add: start_task_def enter_call_def)

lemma moved_resume_task:
  assumes ok: "waiters_ok s" and i: "i < length (children s)" "children s ! i = Woken"
  shows "moved s (resume_task i s)"
proof -
  define s1 where "s1 = s\<lparr>waiters := remove1 i (waiters s)\<rparr>"
  define s2 where "s2 = (if sem_value s1 > 0 then wake_up_next s1 else s1)"
  have r: "resume_task i s = enter_call i s2"
    by (simp add: resume_task_def s1_def s2_def Let_def)
  have f1: "children s1 = children s" "nfinished s1 = nfinished s" "outer s1 = outer s"
    by (simp_all add: s1_def)
  have d: "distinct (waiters s)" using ok by (simp add: waiters_ok_def)
  have ok1: "waiters_ok s1"
    unfolding waiters_ok_def using ok i(2) d by (auto simp: s1_def waiters_ok_def)
  have wk: "woke s1 s2 \<or> s2 = s1" unfolding s2_def using wake_cases [of s1] by simp
  have fl: "nfinished s2 = nfinished s \<and> outer s2 = outer s \<and>
      length (children s2) = length (children s)"
    using wk woke_fields [of s1 s2] f1 by auto
  have nth2: "children s2 ! j = children s ! j \<or>
     (children s ! j = Waiting \<and> children s2 ! j = Woken)" for j
    using wk woke_nth [of s1 s2 j] ok1 f1 by auto
  show ?thesis unfolding r
  proof (rule movedI)
    fix j assume j: "j < length (children s)"
    show "children (enter_call i s2) ! j = children s ! j \<or>
        (\<not> finished (children s ! j) \<and> \<not> finished (children (enter_call i s2) ! j))"
    proof (cases "j = i")
      case True
      with i fl show ?thesis by (simp add: enter_call_def)
    next
      case False
      with nth2 [of j] show ?thesis by (auto simp: enter_call_def)
    qed
  qed (simp_all add: enter_call_def fl)
qed

lemma moved_step_run:
  assumes ok: "waiters_ok s"
  shows "moved s (step op ps (Run i) s)"
proof (cases "i < length (children s)")
  case False
  then show ?thesis by (simp add: moved_refl)
next
  case True
  then show ?thesis
    by (cases "children s ! i")
      (simp_all add: moved_refl moved_start_task moved_resume_task [OF ok])
qed

subsection \<open>Every event keeps the invariant of the script\<close>

lemma script_invD:
  assumes "script_inv op ps s"
  shows "length (children (lp s)) = length ps"
    and "distinct (ready s)"
    and "\<And>i. i \<in> set (ready s) \<Longrightarrow> i < length ps \<and> finished (children (lp s) ! i)"
    and "nfinished (lp s) + length (ready s) = count_tasks finished (lp s)"
    and "\<And>i r. i < length ps \<Longrightarrow> children (lp s) ! i = Done r \<Longrightarrow>
        r = lift_op op (ps ! i) \<or> r = Inl CancelledError"
    and "\<And>i. i < length ps \<Longrightarrow> children (lp s) ! i = Done (Inl CancelledError) \<Longrightarrow>
        has_raised (outer (lp s))"
    and "outer_ok op ps s"
  using assms unfolding script_inv_def by blast+

lemma script_invI:
  assumes "length (children (lp s)) = length ps"
    and "distinct (ready s)"
    and "\<And>i. i \<in> set (ready s) \<Longrightarrow> i < length ps \<and> finished (children (lp s) ! i)"
    and "nfinished (lp s) + length (ready s) = count_tasks finished (lp s)"
    and "\<And>i r. i < length ps \<Longrightarrow> children (lp s) ! i = Done r \<Longrightarrow>
        r = lift_op op (ps ! i) \<or> r = Inl CancelledError"
    and "\<And>i. i < length ps \<Longrightarrow> children (lp s) ! i = Done (Inl CancelledError) \<Longrightarrow>
        has_raised (outer (lp s))"
    and "outer_ok op ps s"
  shows "script_inv op ps s"
  using assms unfolding script_inv_def by blast

lemma has_raised_iff: "has_raised x \<longleftrightarrow> (\<exists>e. x = Some (Inl e))"
  by (cases x rule: has_raised.cases) simp_all

lemma lift_op_Inl: "lift_op op p = Inl x \<Longrightarrow> \<exists>e. x = Remote e \<and> op p = Inl e"
  by (cases "op p") (auto simp: lift_op_def)

lemma lift_op_Inr: "lift_op op p = Inr v \<longleftrightarrow> op p = Inr v"
  by (cases "op p") (auto simp: lift_op_def)

lemma lift_op_not_cancelled: "lift_op op p \<noteq> Inl CancelledError"
  by (cases "op p") (auto simp: lift_op_def)

lemma script_inv_moved:
  assumes inv: "script_inv op ps s" and m: "moved (lp s) l'"
  shows "script_inv op ps (s\<lparr>lp := l'\<rparr>)"
proof -
  let ?s' = "s\<lparr>lp := l'\<rparr>"
  note d = script_invD [OF inv]
  note f = moved_fields [OF m]
  have dn: "(children l' ! j = Done r) = (children (lp s) ! j = Done r)" if "j < length ps" for j r
    using moved_done [OF m, of j r] that d(1) by simp
  have fn: "finished (children l' ! j) = finished (children (lp s) ! j)" if "j < length ps" for j
    using moved_finished [OF m, of j] that d(1) by simp
  show ?thesis
  proof (rule script_invI)
    show "length (children (lp ?s')) = length ps" using f d(1) by simp
    show "distinct (ready ?s')" using d(2) by simp
    show "i < length ps \<and> finished (children (lp ?s') ! i)" if "i \<in> set (ready ?s')" for i
    proof -
      from that have "i \<in> set (ready s)" by simp
      from d(3) [OF this] fn [of i] show ?thesis by simp
    qed
    show "nfinished (lp ?s') + length (ready ?s') = count_tasks finished (lp ?s')"
      using d(4) f(2) moved_count [OF m] by simp
    show "r = lift_op op (ps ! i) \<or> r = Inl CancelledError"
      if "i < length ps" "children (lp ?s') ! i = Done r" for i r
    proof -
      from that dn [OF that(1), of r] have "children (lp s) ! i = Done r" by simp
      from d(5) [OF that(1) this] show ?thesis .
    qed
    show "has_raised (outer (lp ?s'))"
      if "i < length ps" "children (lp ?s') ! i = Done (Inl CancelledError)" for i
    proof -
      from that dn [OF that(1), of "Inl CancelledError"]
      have "children (lp s) ! i = Done (Inl CancelledError)" by simp
      from d(6) [OF that(1) this] f(3) show ?thesis by simp
    qed
    show "outer_ok op ps ?s'"
    proof (cases "outer (lp s)")
      case None
      with d(7) have a: "nfinished (lp s) < length ps"
        and b: "\<And>i x. i < length ps \<Longrightarrow> children (lp s) ! i = Done (Inl x) \<Longrightarrow> i \<in> set (ready s)"
        by (simp_all add: outer_ok_def)
      have "i \<in> set (ready s)" if "i < length ps" "children l' ! i = Done (Inl x)" for i x
        using b [OF that(1), of x] dn [OF that(1), of "Inl x"] that(2) by simp
      with a None f show ?thesis by (simp add: outer_ok_def)
    next
      case (Some res)
      show ?thesis
      proof (cases res)
        case (Inl x)
        with Some d(7) f(3) show ?thesis by (simp add: outer_ok_def)
      next
        case (Inr vs)
        with Some d(7) have cs: "children (lp s) = map (\<lambda>v. Done (Inr v)) vs" and r: "ready s = []"
          by (simp_all add: outer_ok_def)
        have "children l' = children (lp s)"
        proof (rule nth_equalityI)
          show "length (children l') = length (children (lp s))" by (rule f(1))
        next
          fix j assume "j < length (children l')"
          then have j: "j < length (children (lp s))" by (simp add: f(1))
          then have "finished (children (lp s) ! j)" by (simp add: cs)
          with moved_nth [OF m j] show "children l' ! j = children (lp s) ! j" by blast
        qed
        with Some Inr cs r f(3) show ?thesis by (simp add: outer_ok_def)
      qed
    qed
  qed
qed

lemma script_inv_finish:
  assumes inv: "script_inv op ps s"
    and i: "i < length ps" "\<not> finished (children (lp s) ! i)"
    and r: "r = lift_op op (ps ! i) \<or> (r = Inl CancelledError \<and> has_raised (outer (lp s)))"
  shows "script_inv op ps
     (s\<lparr>lp := (lp s)\<lparr>children := (children (lp s))[i := Done r]\<rparr>, ready := ready s @ [i]\<rparr>)"
proof -
  let ?l' = "(lp s)\<lparr>children := (children (lp s))[i := Done r]\<rparr>"
  let ?s' = "s\<lparr>lp := ?l', ready := ready s @ [i]\<rparr>"
  note d = script_invD [OF inv]
  from i(1) d(1) have il: "i < length (children (lp s))" by simp
  have ch: "children ?l' = (children (lp s))[i := Done r]" by simp
  have ni: "i \<notin> set (ready s)" using d(3) [of i] i(2) by blast
  have nth_i: "children ?l' ! i = Done r" using il by simp
  have nth_o: "children ?l' ! j = children (lp s) ! j" if "j \<noteq> i" for j using that by simp
  show ?thesis
  proof (rule script_invI)
    show "length (children (lp ?s')) = length ps" using d(1) by simp
    show "distinct (ready ?s')" using d(2) ni by simp
    show "j < length ps \<and> finished (children (lp ?s') ! j)" if "j \<in> set (ready ?s')" for j
    proof (cases "j = i")
      case True
      with i(1) il show ?thesis by simp
    next
      case False
      with that have "j \<in> set (ready s)" by simp
      from d(3) [OF this] False show ?thesis by simp
    qed
    show "nfinished (lp ?s') + length (ready ?s') = count_tasks finished (lp ?s')"
    proof -
      from count_update [OF il ch, of finished] i(2)
      have "count_tasks finished ?l' = count_tasks finished (lp s) + 1" by simp
      with d(4) show ?thesis by simp
    qed
    show "r' = lift_op op (ps ! j) \<or> r' = Inl CancelledError"
      if "j < length ps" "children (lp ?s') ! j = Done r'" for j r'
    proof (cases "j = i")
      case True
      with that nth_i have "r' = r" by simp
      with r True show ?thesis by blast
    next
      case False
      with that have "children (lp s) ! j = Done r'" by simp
      from d(5) [OF that(1) this] show ?thesis .
    qed
    show "has_raised (outer (lp ?s'))"
      if "j < length ps" "children (lp ?s') ! j = Done (Inl CancelledError)" for j
    proof (cases "j = i")
      case True
      with that nth_i have "r = Inl CancelledError" by simp
      with r lift_op_not_cancelled [of op "ps ! i"] show ?thesis by auto
    next
      case False
      with that have "children (lp s) ! j = Done (Inl CancelledError)" by simp
      from d(6) [OF that(1) this] show ?thesis by simp
    qed
    show "outer_ok op ps ?s'"
    proof (cases "outer (lp s)")
      case None
      with d(7) have a: "nfinished (lp s) < length ps"
        and b: "\<And>j x. j < length ps \<Longrightarrow> children (lp s) ! j = Done (Inl x) \<Longrightarrow> j \<in> set (ready s)"
        by (simp_all add: outer_ok_def)
      have "j \<in> set (ready s @ [i])" if "j < length ps" "children ?l' ! j = Done (Inl x)" for j x
      proof (cases "j = i")
        case True
        then show ?thesis by simp
      next
        case False
        with that have "children (lp s) ! j = Done (Inl x)" by simp
        from b [OF that(1) this] show ?thesis by simp
      qed
      with a None show ?thesis by (simp add: outer_ok_def)
    next
      case (Some res)
      show ?thesis
      proof (cases res)
        case (Inl x)
        with Some d(7) show ?thesis by (simp add: outer_ok_def)
      next
        case (Inr vs)
        with Some d(7) have "children (lp s) = map (\<lambda>v. Done (Inr v)) vs"
          by (simp add: outer_ok_def)
        with il have "finished (children (lp s) ! i)" by simp
        with i(2) show ?thesis by simp
      qed
    qed
  qed
qed

lemma script_inv_end_task:
  assumes inv: "script_inv op ps s" and ok: "waiters_ok (lp s)"
    and i: "i < length ps" "\<not> finished (children (lp s) ! i)"
    and r: "r = lift_op op (ps ! i) \<or> (r = Inl CancelledError \<and> has_raised (outer (lp s)))"
  shows "script_inv op ps (s\<lparr>lp := end_task r i (lp s), ready := ready s @ [i]\<rparr>)"
proof -
  define s1 where "s1 = s\<lparr>lp := release (lp s)\<rparr>"
  have m: "moved (lp s) (release (lp s))" by (rule moved_release [OF ok])
  have inv1: "script_inv op ps s1" unfolding s1_def by (rule script_inv_moved [OF inv m])
  from i(1) script_invD(1) [OF inv] have il: "i < length (children (lp s))" by simp
  have i1: "\<not> finished (children (lp s1) ! i)"
    using moved_finished [OF m il] i(2) by (simp add: s1_def)
  have r1: "r = lift_op op (ps ! i) \<or> (r = Inl CancelledError \<and> has_raised (outer (lp s1)))"
    using r moved_fields(3) [OF m] by (simp add: s1_def)
  have e: "s\<lparr>lp := end_task r i (lp s), ready := ready s @ [i]\<rparr> =
      s1\<lparr>lp := (lp s1)\<lparr>children := (children (lp s1))[i := Done r]\<rparr>, ready := ready s1 @ [i]\<rparr>"
    by (simp add: s1_def end_task_def Let_def)
  show ?thesis unfolding e by (rule script_inv_finish [OF inv1 i(1) i1 r1])
qed

lemma script_inv_cancel_task:
  assumes inv: "script_inv op ps s" and si: "sem_inv C (lp s)"
    and i: "i < length ps" "\<not> finished (children (lp s) ! i)"
    and hr: "has_raised (outer (lp s))"
  shows "script_inv op ps (s\<lparr>lp := cancel_task i (lp s), ready := ready s @ [i]\<rparr>)"
proof -
  let ?r = "Inl CancelledError :: 'b exn + 'c"
  from si have ok: "waiters_ok (lp s)" by (simp add: sem_inv_def)
  have r: "?r = lift_op op (ps ! i) \<or> (?r = Inl CancelledError \<and> has_raised (outer (lp s)))"
    using hr by simp
  show ?thesis
  proof (cases "children (lp s) ! i")
    case Pending
    then have "cancel_task i (lp s) = (lp s)\<lparr>children := (children (lp s))[i := Done ?r]\<rparr>"
      by (simp add: cancel_task_def)
    with script_inv_finish [OF inv i r] show ?thesis by simp
  next
    case Waiting
    define s1 where "s1 = s\<lparr>lp := (lp s)\<lparr>waiters := remove1 i (waiters (lp s))\<rparr>\<rparr>"
    have "moved (lp s) ((lp s)\<lparr>waiters := remove1 i (waiters (lp s))\<rparr>)" by (simp add: moved_def)
    from script_inv_moved [OF inv this] have inv1: "script_inv op ps s1" by (simp add: s1_def)
    have i1: "\<not> finished (children (lp s1) ! i)" using i(2) by (simp add: s1_def)
    have r1: "?r = lift_op op (ps ! i) \<or> (?r = Inl CancelledError \<and> has_raised (outer (lp s1)))"
      using hr by (simp add: s1_def)
    have e: "s\<lparr>lp := cancel_task i (lp s), ready := ready s @ [i]\<rparr> =
      s1\<lparr>lp := (lp s1)\<lparr>children := (children (lp s1))[i := Done ?r]\<rparr>, ready := ready s1 @ [i]\<rparr>"
      using Waiting by (simp add: s1_def cancel_task_def)
    show ?thesis unfolding e by (rule script_inv_finish [OF inv1 i(1) i1 r1])
  next
    case Woken
    define s1 where "s1 = s\<lparr>lp := (lp s)\<lparr>waiters := remove1 i (waiters (lp s))\<rparr>\<rparr>"
    have "moved (lp s) ((lp s)\<lparr>waiters := remove1 i (waiters (lp s))\<rparr>)" by (simp add: moved_def)
    from script_inv_moved [OF inv this] have inv1: "script_inv op ps s1" by (simp add: s1_def)
    from sem_inv_remove_woken(1) [OF si Woken] have ok1: "waiters_ok (lp s1)"
      by (simp add: s1_def sem_inv_def)
    have i1: "\<not> finished (children (lp s1) ! i)" using i(2) by (simp add: s1_def)
    have r1: "?r = lift_op op (ps ! i) \<or> (?r = Inl CancelledError \<and> has_raised (outer (lp s1)))"
      using hr by (simp add: s1_def)
    have e: "s\<lparr>lp := cancel_task i (lp s), ready := ready s @ [i]\<rparr> =
      s1\<lparr>lp := end_task ?r i (lp s1), ready := ready s1 @ [i]\<rparr>"
      using Woken by (simp add: s1_def cancel_task_def)
    show ?thesis unfolding e by (rule script_inv_end_task [OF inv1 ok1 i(1) i1 r1])
  next
    case InFlight
    then have "cancel_task i (lp s) = end_task ?r i (lp s)" by (simp add: cancel_task_def)
    with script_inv_end_task [OF inv ok i r] show ?thesis by simp
  next
    case (Done x)
    with i(2) show ?thesis by simp
  qed
qed

lemma script_inv_notify:
  assumes inv: "script_inv op ps s" and i: "i \<in> set (ready s)" "children (lp s) ! i = Done r"
  shows "script_inv op ps (s\<lparr>lp := done_callback r (lp s), ready := remove1 i (ready s)\<rparr>)"
proof -
  let ?l' = "done_callback r (lp s)"
  let ?s' = "s\<lparr>lp := ?l', ready := remove1 i (ready s)\<rparr>"
  note d = script_invD [OF inv]
  from done_callback_fields [of r "lp s"]
  have ch: "children ?l' = children (lp s)" and nf: "nfinished ?l' = nfinished (lp s) + 1"
    by simp_all
  from d(3) [OF i(1)] have il: "i < length ps" by simp
  have lr: "length (remove1 i (ready s)) + 1 = length (ready s)"
    using i(1) by (simp add: length_remove1) (cases "ready s"; simp)
  have cnt: "count_tasks finished ?l' = count_tasks finished (lp s)"
    by (simp add: count_tasks_def ch)
  have keep: "outer ?l' = outer (lp s)" if "outer (lp s) \<noteq> None"
    using that by (simp add: done_callback_def Let_def)
  show ?thesis
  proof (rule script_invI)
    show "length (children (lp ?s')) = length ps" using d(1) ch by simp
    show "distinct (ready ?s')" using d(2) by simp
    show "j < length ps \<and> finished (children (lp ?s') ! j)" if "j \<in> set (ready ?s')" for j
    proof -
      from that set_remove1_subset [of i "ready s"] have "j \<in> set (ready s)" by auto
      from d(3) [OF this] show ?thesis by (simp add: ch)
    qed
    show "nfinished (lp ?s') + length (ready ?s') = count_tasks finished (lp ?s')"
      using d(4) lr nf cnt by simp
    show "r' = lift_op op (ps ! j) \<or> r' = Inl CancelledError"
      if "j < length ps" "children (lp ?s') ! j = Done r'" for j r'
    proof -
      from that have "children (lp s) ! j = Done r'" by (simp add: ch)
      from d(5) [OF that(1) this] show ?thesis .
    qed
    show "has_raised (outer (lp ?s'))"
      if "j < length ps" "children (lp ?s') ! j = Done (Inl CancelledError)" for j
    proof -
      from that have "children (lp s) ! j = Done (Inl CancelledError)" by (simp add: ch)
      from d(6) [OF that(1) this] have h: "has_raised (outer (lp s))" .
      then have "outer (lp s) \<noteq> None" by (auto simp: has_raised_iff)
      from keep [OF this] h show ?thesis by simp
    qed
    show "outer_ok op ps ?s'"
    proof (cases "outer (lp s)")
      case (Some res)
      then have o: "outer ?l' = Some res" using keep by simp
      show ?thesis
      proof (cases res)
        case (Inl x)
        with Some d(7) o show ?thesis by (simp add: outer_ok_def)
      next
        case (Inr vs)
        with Some d(7) have "ready s = []" by (simp add: outer_ok_def)
        with i(1) show ?thesis by simp
      qed
    next
      case None
      with d(7) have a: "nfinished (lp s) < length ps"
        and b: "\<And>j x. j < length ps \<Longrightarrow> children (lp s) ! j = Done (Inl x) \<Longrightarrow> j \<in> set (ready s)"
        by (simp_all add: outer_ok_def)
      have nc: "r \<noteq> Inl CancelledError"
      proof
        assume "r = Inl CancelledError"
        with d(6) [OF il] i(2) have "has_raised (outer (lp s))" by simp
        with None show False by simp
      qed
      with d(5) [OF il i(2)] have rl: "r = lift_op op (ps ! i)" by simp
      show ?thesis
      proof (cases r)
        case (Inl x)
        with None have o: "outer ?l' = Some (Inl x)" by (simp add: done_callback_def Let_def)
        from Inl rl lift_op_Inl [of op "ps ! i" x] obtain e where "x = Remote e" "op (ps ! i) = Inl e"
          by auto
        with il have "\<exists>j < length ps. \<exists>e. x = Remote e \<and> op (ps ! j) = Inl e" by blast
        with o show ?thesis by (simp add: outer_ok_def)
      next
        case (Inr v)
        have b': "j \<in> set (remove1 i (ready s))"
          if "j < length ps" "children (lp s) ! j = Done (Inl x)" for j x
        proof -
          from b [OF that] have "j \<in> set (ready s)" .
          moreover from that(2) i(2) Inr have "j \<noteq> i" by auto
          ultimately show ?thesis by simp
        qed
        show ?thesis
        proof (cases "nfinished (lp s) + 1 = length (children (lp s))")
          case False
          with None Inr have o: "outer ?l' = None" by (simp add: done_callback_def Let_def)
          have le: "length (filter finished (children (lp s))) \<le> length (children (lp s))"
            by (rule length_filter_le)
          have d4: "nfinished (lp s) + length (ready s) = length (filter finished (children (lp s)))"
            using d(4) by (simp add: count_tasks_def)
          from d4 lr le d(1)
          have "nfinished (lp s) + 1 \<le> length ps" by arith
          with False d(1) have "nfinished ?l' < length ps" by (simp add: nf)
          with o b' show ?thesis by (simp add: outer_ok_def ch)
        next
          case True
          have le: "length (filter finished (children (lp s))) \<le> length (children (lp s))"
            by (rule length_filter_le)
          have d4: "nfinished (lp s) + length (ready s) = length (filter finished (children (lp s)))"
            using d(4) by (simp add: count_tasks_def)
          from True d4 lr le
          have full: "length (filter finished (children (lp s))) = length (children (lp s))"
            and l1: "length (ready s) = 1"
            by arith+
          from l1 i(1) have rs: "ready s = [i]" by (cases "ready s") auto
          have "\<exists>vs. those (map task_result (children (lp s))) = Some vs \<and>
              children (lp s) = map (\<lambda>v. Done (Inr v)) vs"
          proof (rule those_results)
            fix t assume t: "t \<in> set (children (lp s))"
            from length_filter_full [OF full t] obtain r' where r': "t = Done r'"
              by (cases t) simp_all
            from t obtain j where j: "j < length (children (lp s))" "children (lp s) ! j = t"
              by (auto simp: in_set_conv_nth)
            then have jl: "j < length ps" using d(1) by simp
            show "\<exists>v. t = Done (Inr v)"
            proof (cases r')
              case (Inl x)
              with j r' b [OF jl, of x] rs have "j = i" by simp
              with j r' Inl i(2) Inr show ?thesis by simp
            next
              case (Inr v')
              with r' show ?thesis by blast
            qed
          qed
          then obtain vs where vs: "those (map task_result (children (lp s))) = Some vs"
            "children (lp s) = map (\<lambda>v. Done (Inr v)) vs" by blast
          have "outer ?l' = Some (Inr vs)" using None Inr True vs(1)
            by (simp add: done_callback_def Let_def)
          with vs(2) rs show ?thesis by (simp add: outer_ok_def ch)
        qed
      qed
    qed
  qed
qed

lemma script_step_inv:
  assumes inv: "script_inv op ps s" and si: "sem_inv C (lp s)"
  shows "script_inv op ps (script_step op ps ev s)"
proof (cases ev)
  case (SRun i)
  from si have ok: "waiters_ok (lp s)" by (simp add: sem_inv_def)
  from script_inv_moved [OF inv moved_step_run [OF ok, of "lift_op op" ps i]]
  show ?thesis unfolding SRun by (simp del: step.simps)
next
  case (SComplete i)
  show ?thesis
  proof (cases "i < length (children (lp s)) \<and> children (lp s) ! i = InFlight")
    case True
    from si have ok: "waiters_ok (lp s)" by (simp add: sem_inv_def)
    from True script_invD(1) [OF inv] have il: "i < length ps" by simp
    from True have nf: "\<not> finished (children (lp s) ! i)" by simp
    have "script_inv op ps
        (s\<lparr>lp := end_task (lift_op op (ps ! i)) i (lp s), ready := ready s @ [i]\<rparr>)"
      by (rule script_inv_end_task [OF inv ok il nf]) simp
    with True show ?thesis unfolding SComplete by simp
  next
    case False
    with inv show ?thesis unfolding SComplete by auto
  qed
next
  case (SNotify i)
  show ?thesis
  proof (cases "i \<in> set (ready s)")
    case True
    show ?thesis
    proof (cases "children (lp s) ! i")
      case (Done r)
      from script_inv_notify [OF inv True Done] True Done show ?thesis unfolding SNotify by simp
    qed (use inv True in \<open>simp_all add: SNotify\<close>)
  next
    case False
    with inv show ?thesis unfolding SNotify by simp
  qed
next
  case (SCancel i)
  show ?thesis
  proof (cases "i < length (children (lp s)) \<and> \<not> finished (children (lp s) ! i) \<and>
      has_raised (outer (lp s))")
    case True
    from True script_invD(1) [OF inv] have il: "i < length ps" by simp
    from script_inv_cancel_task [OF inv si il] True show ?thesis unfolding SCancel by simp
  next
    case False
    with inv show ?thesis unfolding SCancel by auto
  qed
qed

lemma script_init_inv: "script_inv op ps (script_init C ps)"
  by (rule script_invI)
    (auto simp: script_init_def gather_init_def count_tasks_def outer_ok_def)

lemma script_init_sem_inv: "sem_inv C (lp (script_init C ps))"
  by (simp add: script_init_def gather_init_sem_inv)

lemma run_script_snoc:
  "run_script op ps (es @ [e]) s = script_step op ps e (run_script op ps es s)"
  by (simp add: run_script_def)

lemma run_script_append:
  "run_script op ps (es @ es') s = run_script op ps es' (run_script op ps es s)"
  by (simp add: run_script_def)

lemma run_script_inv:
  assumes "sem_inv C (lp s)" "script_inv op ps s"
  shows "sem_inv C (lp (run_script op ps es s)) \<and> script_inv op ps (run_script op ps es s)"
proof (induction es rule: rev_induct)
  case Nil
  from assms show ?case by (simp add: run_script_def)
next
  case (snoc e es)
  then show ?case
    by (simp add: run_script_snoc script_step_sem_inv script_step_inv [where C = C]
        del: script_step.simps)
qed

lemma script_inv_all:
  "sem_inv C (lp (script C op ps es)) \<and> script_inv op ps (script C op ps es)"
  unfolding script_def
  by (rule run_script_inv [OF script_init_sem_inv script_init_inv])

subsection \<open>Progress of the script\<close>

lemma end_task_rank:
  assumes ok: "waiters_ok s" and i: "i < length (children s)" "holds_permit (children s ! i)"
  shows "rank_sum (end_task r i s) < rank_sum s"
proof -
  define s0 where "s0 = s\<lparr>sem_value := sem_value s + 1\<rparr>"
  define s1 where "s1 = release s"
  have wk: "woke s0 s1" unfolding s1_def release_def s0_def by (rule wake_cases)
  have ok0: "waiters_ok s0" using ok by (simp add: s0_def waiters_ok_def)
  have f0: "children s0 = children s" by (simp add: s0_def)
  have le: "rank_sum s1 \<le> rank_sum s"
    using woke_rank [OF wk ok0] by (simp add: rank_sum_def f0)
  from i(2) have nw: "children s ! i \<noteq> Waiting" by auto
  have c1: "children s1 ! i = children s ! i" using woke_nth [OF wk ok0, of i] nw by (simp add: f0)
  have il: "i < length (children s1)" using woke_fields [OF wk] i(1) by (simp add: f0)
  have c: "children (end_task r i s) = (children s1)[i := Done r]"
    by (simp add: end_task_def s1_def Let_def)
  have "0 < rank (children s ! i)" using i(2) by (cases "children s ! i") simp_all
  with rank_update [OF il c] c1 le show ?thesis by simp
qed

lemma cancel_task_rank:
  assumes si: "sem_inv C s" and i: "i < length (children s)" "\<not> finished (children s ! i)"
  shows "rank_sum (cancel_task i s) < rank_sum s"
proof (cases "children s ! i")
  case Pending
  have c: "children (s\<lparr>children := (children s)[i := Done (Inl CancelledError)]\<rparr>)
      = (children s)[i := Done (Inl CancelledError)]" by simp
  from rank_update [OF i(1) c] Pending show ?thesis by (simp add: cancel_task_def)
next
  case Waiting
  have c: "children (s\<lparr>waiters := remove1 i (waiters s),
        children := (children s)[i := Done (Inl CancelledError)]\<rparr>)
      = (children s)[i := Done (Inl CancelledError)]" by simp
  from rank_update [OF i(1) c] Waiting show ?thesis by (simp add: cancel_task_def)
next
  case Woken
  let ?s1 = "s\<lparr>waiters := remove1 i (waiters s)\<rparr>"
  from sem_inv_remove_woken(1) [OF si Woken] have ok1: "waiters_ok ?s1" by (simp add: sem_inv_def)
  have "rank_sum (end_task (Inl CancelledError) i ?s1) < rank_sum ?s1"
    by (rule end_task_rank [OF ok1]) (use i Woken in simp_all)
  with Woken show ?thesis by (simp add: cancel_task_def rank_sum_def)
next
  case InFlight
  from si have ok: "waiters_ok s" by (simp add: sem_inv_def)
  have "rank_sum (end_task (Inl CancelledError) i s) < rank_sum s"
    by (rule end_task_rank [OF ok i(1)]) (simp add: InFlight)
  with InFlight show ?thesis by (simp add: cancel_task_def)
next
  case (Done r)
  with i(2) show ?thesis by simp
qed

lemma script_step_measure:
  assumes si: "sem_inv C (lp s)" and inv: "script_inv op ps s" and en: "script_enabled ev s"
  shows "script_measure (script_step op ps ev s) < script_measure s"
proof (cases ev)
  case (SRun i)
  from si have ok: "waiters_ok (lp s)" by (simp add: sem_inv_def)
  from en SRun have "enabled (Run i) (lp s)" by simp
  from step_rank [OF ok this, of "lift_op op" ps]
  show ?thesis unfolding SRun by (simp add: script_measure_def del: step.simps)
next
  case (SComplete i)
  from si have ok: "waiters_ok (lp s)" by (simp add: sem_inv_def)
  from en SComplete have i: "i < length (children (lp s))" "children (lp s) ! i = InFlight"
    by simp_all
  have "rank_sum (end_task (lift_op op (ps ! i)) i (lp s)) < rank_sum (lp s)"
    by (rule end_task_rank [OF ok i(1)]) (simp add: i(2))
  with i show ?thesis unfolding SComplete by (simp add: script_measure_def)
next
  case (SNotify i)
  from en SNotify have i: "i \<in> set (ready s)" by simp
  from script_invD(3) [OF inv i] obtain r where r: "children (lp s) ! i = Done r"
    by (cases "children (lp s) ! i") auto
  have lr: "length (remove1 i (ready s)) + 1 = length (ready s)"
    using i by (simp add: length_remove1) (cases "ready s"; simp)
  have "rank_sum (done_callback r (lp s)) = rank_sum (lp s)"
    using done_callback_fields [of r "lp s"] by (simp add: rank_sum_def)
  with i r lr show ?thesis unfolding SNotify by (simp add: script_measure_def)
next
  case (SCancel i)
  from en SCancel have i: "i < length (children (lp s))" "\<not> finished (children (lp s) ! i)"
    "has_raised (outer (lp s))" by simp_all
  from cancel_task_rank [OF si i(1,2)] i show ?thesis
    unfolding SCancel by (simp add: script_measure_def)
qed

lemma script_progress:
  assumes C: "1 \<le> C" and si: "sem_inv C (lp s)" and ns: "\<not> settled s"
  shows "\<exists>ev. script_enabled ev s \<and> \<not> is_cancel ev"
proof (cases "ready s")
  case (Cons i rs)
  then have "script_enabled (SNotify i) s \<and> \<not> is_cancel (SNotify i)" by simp
  then show ?thesis by blast
next
  case Nil
  with ns have "\<not> all_done (lp s)" by (simp add: settled_def)
  from progress [OF C si this] obtain ev where ev: "enabled ev (lp s)" by blast
  show ?thesis
  proof (cases ev)
    case (Run i)
    with ev have "script_enabled (SRun i) s \<and> \<not> is_cancel (SRun i)" by simp
    then show ?thesis by blast
  next
    case (Complete i)
    with ev have "script_enabled (SComplete i) s \<and> \<not> is_cancel (SComplete i)" by simp
    then show ?thesis by blast
  qed
qed

lemma script_completes:
  assumes C: "1 \<le> C"
  shows "sem_inv C (lp s) \<Longrightarrow> script_inv op ps s \<Longrightarrow>
    \<exists>es. no_cancel es \<and> settled (run_script op ps es s)"
proof (induction "script_measure s" arbitrary: s rule: less_induct)
  case less
  show ?case
  proof (cases "settled s")
    case True
    then have "no_cancel [] \<and> settled (run_script op ps [] s)"
      by (simp add: run_script_def no_cancel_def)
    then show ?thesis by blast
  next
    case False
    from script_progress [OF C less.prems(1) False]
    obtain ev where ev: "script_enabled ev s" "\<not> is_cancel ev" by blast
    let ?s' = "script_step op ps ev s"
    have m: "script_measure ?s' < script_measure s"
      by (rule script_step_measure [OF less.prems ev(1)])
    have si': "sem_inv C (lp ?s')" by (rule script_step_sem_inv [OF less.prems(1)])
    have inv': "script_inv op ps ?s'" by (rule script_step_inv [OF less.prems(2,1)])
    from less.hyps [OF m si' inv'] obtain es where
      es: "no_cancel es" "settled (run_script op ps es ?s')" by blast
    from es ev(2) have "no_cancel (ev # es) \<and> settled (run_script op ps (ev # es) s)"
      by (simp add: run_script_def no_cancel_def)
    then show ?thesis by blast
  qed
qed

lemma script_continues:
  assumes C: "1 \<le> C"
  shows "\<exists>es'. no_cancel es' \<and> settled (script C op ps (es @ es'))"
proof -
  from script_inv_all [of C op ps es]
  have "sem_inv C (lp (script C op ps es))" "script_inv op ps (script C op ps es)" by blast+
  from script_completes [OF C this] show ?thesis by (simp add: script_def run_script_append)
qed

subsection \<open>Without cancellation every task ends with its own outcome\<close>




subsection \<open>What the awaited future holds\<close>

lemma all_done_count: "all_done l \<Longrightarrow> count_tasks finished l = length (children l)"
  by (simp add: all_done_def count_tasks_def list_all_iff)

lemma script_outer_raised:
  assumes inv: "script_inv op ps s" and o: "outer (lp s) = Some (Inl x)"
  shows "\<exists>i < length ps. \<exists>e. x = Remote e \<and> op (ps ! i) = Inl e"
  using script_invD(7) [OF inv] o by (simp add: outer_ok_def)

lemma script_outer_returned:
  assumes inv: "script_inv op ps s" and o: "outer (lp s) = Some (Inr vs)"
  shows "length vs = length ps \<and> (\<forall>i < length ps. op (ps ! i) = Inr (vs ! i))"
proof -
  note d = script_invD [OF inv]
  from d(7) o have cs: "children (lp s) = map (\<lambda>v. Done (Inr v)) vs" by (simp add: outer_ok_def)
  with d(1) have len: "length vs = length ps" by simp
  have "op (ps ! i) = Inr (vs ! i)" if "i < length ps" for i
  proof -
    from that len cs have "children (lp s) ! i = Done (Inr (vs ! i))" by simp
    from d(5) [OF that this] have "lift_op op (ps ! i) = Inr (vs ! i)" by auto
    then show ?thesis by (simp add: lift_op_Inr)
  qed
  with len show ?thesis by blast
qed

lemma script_outer_settled:
  assumes inv: "script_inv op ps s" and st: "settled s"
  shows "outer (lp s) \<noteq> None"
proof
  assume n: "outer (lp s) = None"
  note d = script_invD [OF inv]
  from st have "all_done (lp s)" "ready s = []" by (simp_all add: settled_def)
  with all_done_count [of "lp s"] d(4) d(1) have "nfinished (lp s) = length ps" by simp
  moreover from d(7) n have "nfinished (lp s) < length ps" by (simp add: outer_ok_def)
  ultimately show False by simp
qed

lemma script_never_returns:
  assumes inv: "script_inv op ps s" and f: "i < length ps" "op (ps ! i) = Inl e"
  shows "outer (lp s) \<noteq> Some (Inr vs)"
proof
  assume "outer (lp s) = Some (Inr vs)"
  from script_outer_returned [OF inv this] f show False by simp
qed

lemma script_step_outer:
  assumes inv: "script_inv op ps s" and si: "sem_inv C (lp s)" and o: "outer (lp s) \<noteq> None"
  shows "outer (lp (script_step op ps ev s)) = outer (lp s)"
proof (cases ev)
  case (SRun i)
  from si have ok: "waiters_ok (lp s)" by (simp add: sem_inv_def)
  from moved_fields(3) [OF moved_step_run [OF ok, of "lift_op op" ps i]]
  show ?thesis unfolding SRun by (simp del: step.simps)
next
  case (SComplete i)
  from si have ok: "waiters_ok (lp s)" by (simp add: sem_inv_def)
  have "outer (end_task r i (lp s)) = outer (lp s)" for r
    using moved_fields(3) [OF moved_release [OF ok]] by (simp add: end_task_def Let_def)
  then show ?thesis unfolding SComplete by simp
next
  case (SNotify i)
  have "outer (done_callback r (lp s)) = outer (lp s)" for r
    using o by (simp add: done_callback_def Let_def)
  then show ?thesis unfolding SNotify by (simp split: task.splits)
next
  case (SCancel i)
  show ?thesis
  proof (cases "i < length (children (lp s)) \<and> \<not> finished (children (lp s) ! i) \<and>
      has_raised (outer (lp s))")
    case False
    then show ?thesis unfolding SCancel by auto
  next
    case True
    have e: "outer (end_task r i l) = outer l" if "waiters_ok l" for r and l :: "('b exn, 'c) loop"
      using moved_fields(3) [OF moved_release [OF that]] by (simp add: end_task_def Let_def)
    from si have ok: "waiters_ok (lp s)" by (simp add: sem_inv_def)
    have "outer (cancel_task i (lp s)) = outer (lp s)"
    proof (cases "children (lp s) ! i")
      case Woken
      from sem_inv_remove_woken(1) [OF si Woken]
      have "waiters_ok ((lp s)\<lparr>waiters := remove1 i (waiters (lp s))\<rparr>)" by (simp add: sem_inv_def)
      from e [OF this] Woken show ?thesis by (simp add: cancel_task_def)
    next
      case InFlight
      with e [OF ok] show ?thesis by (simp add: cancel_task_def)
    qed (simp_all add: cancel_task_def)
    with True show ?thesis unfolding SCancel by simp
  qed
qed

lemma script_outer_final:
  assumes "outer (lp (script C op ps es)) \<noteq> None"
  shows "outer (lp (script C op ps (es @ es'))) = outer (lp (script C op ps es))"
proof (induction es' rule: rev_induct)
  case Nil
  show ?case by simp
next
  case (snoc e es')
  from script_inv_all [of C op ps "es @ es'"]
  have si: "sem_inv C (lp (script C op ps (es @ es')))"
    and inv: "script_inv op ps (script C op ps (es @ es'))" by blast+
  from snoc assms have "outer (lp (script C op ps (es @ es'))) \<noteq> None" by simp
  from script_step_outer [OF inv si this, of e] snoc
  have "outer (lp (script_step op ps e (script C op ps (es @ es')))) = outer (lp (script C op ps es))"
    by simp
  moreover have "script C op ps (es @ es' @ [e]) = script_step op ps e (script C op ps (es @ es'))"
    by (simp add: script_def run_script_def)
  ultimately show ?case by simp
qed

lemmas script_eval = script_def run_script_def script_init_def gather_init_def start_task_def
  locked_def enter_call_def end_task_def cancel_task_def release_def wake_up_next_def
  done_callback_def resume_task_def lift_op_def Let_def

subsection \<open>The dispatch of the previous model inside the script\<close>

lemma end_task_nth:
  assumes "i < length (children l)"
  shows "children (end_task r i l) ! i = Done r"
proof -
  have "length (children (release l)) = length (children l)"
    using woke_fields [OF wake_cases [of "l\<lparr>sem_value := sem_value l + 1\<rparr>"]]
    by (simp add: release_def)
  with assms show ?thesis by (simp add: end_task_def Let_def)
qed

lemma finish_task_end_task:
  "finish_task op ps i l = done_callback (op (ps ! i)) (end_task (op (ps ! i)) i l)"
  by (simp add: finish_task_def end_task_def Let_def)

lemma dispatch_refined:
  "script C op ps (concat (map script_events es)) =
     \<lparr>lp = dispatch C (lift_op op) ps es, ready = []\<rparr>"
proof (induction es rule: rev_induct)
  case Nil
  show ?case by (simp add: script_def run_script_def script_init_def dispatch_def run_loop_def)
next
  case (snoc e es)
  let ?l = "dispatch C (lift_op op) ps es"
  have a: "script C op ps (concat (map script_events (es @ [e]))) =
      run_script op ps (script_events e) \<lparr>lp = ?l, ready = []\<rparr>"
    using snoc by (simp add: script_def run_script_def)
  have b: "dispatch C (lift_op op) ps (es @ [e]) = step (lift_op op) ps e ?l"
    by (simp add: dispatch_def run_loop_def)
  show ?case
  proof (cases e)
    case (Run i)
    from a b show ?thesis by (simp add: Run run_script_def del: step.simps)
  next
    case (Complete i)
    show ?thesis
    proof (cases "i < length (children ?l) \<and> children ?l ! i = InFlight")
      case True
      then have "children (end_task (lift_op op (ps ! i)) i ?l) ! i = Done (lift_op op (ps ! i))"
        by (simp add: end_task_nth)
      with True a b show ?thesis
        by (simp add: Complete run_script_def finish_task_end_task)
    next
      case False
      with a b show ?thesis by (auto simp: Complete run_script_def)
    qed
  qed
qed

section \<open>Lemmas about the .env reader\<close>

lemma parse_env_content:
  "parse_dotenv env_content =
     [(''NOCODB_BASE_URL'', ''https://isolated-example.com''),
      (''NOCODB_API_TOKEN'', ''isolated-token''),
      (''NOCODB_TIMEOUT'', ''45.0'')]"
  by (simp add: parse_dotenv_def env_content_def parse_binding_def strip_def is_space_def
      List.map_filter_def Let_def)

text \<open>
  By contrast \<^verbatim>\<open>load_dotenv\<close>, which \<^verbatim>\<open>example_basic_dotenv\<close> calls on such a file, does
  change the environment: a key that only the file binds is set afterwards.
\<close>

lemma load_dotenv_sets_environ:
  assumes "files w path = Some env_content" and "os_environ w ''NOCODB_BASE_URL'' = None"
  shows "os_environ (load_dotenv path False w) ''NOCODB_BASE_URL'' = Some ''https://isolated-example.com''"
  using assms by (simp add: load_dotenv_def dotenv_values_def parse_env_content set_variable_def)

chapter \<open>The claims\<close>

section \<open>Bounded fan-out\<close>




text \<open>
  Claim C2. In every state that a dispatch with limit C can reach, the number of tasks
  that have entered the remote call and not yet finished it is at most C.
\<close>

theorem concurrency_bound: "in_flight (dispatch C op ps es) \<le> C"
proof -
  have "sem_inv C (dispatch C op ps es)" using dispatch_inv [of C op ps es] by blast
  then have "held (dispatch C op ps es) \<le> C" by (simp add: sem_inv_def)
  with in_flight_le_held [of "dispatch C op ps es"] show ?thesis by simp
qed

theorem concurrency_bound_witness:
  "in_flight (dispatch max_concurrent demo_op records (map Run [0..<8])) = 5 \<and>
   in_flight (dispatch max_concurrent demo_op records (map Run [0..<8])) \<le> max_concurrent"
  using concurrency_bound [of max_concurrent demo_op records "map Run [0..<8]"]
  by (simp add: loop_defs in_flight_def count_tasks_def max_concurrent_def records_def upt_rec)




text \<open>
  Claim C4 (as stated: a per-item failure is captured as a Failure Outcome in the returned
  sequence and never raised out of the dispatcher call, which only fails when the input
  is malformed). For the well-formed batch of the single payload 2, whose operation
  fails with \<open>NotFound\<close>, the dispatch raises \<open>NotFound\<close>.
\<close>

theorem item_failure_is_raised:
  "outer (lp (script 5 demo_op [2] [SRun 0, SComplete 0, SNotify 0])) = Some (Inl (Remote NotFound))"
  by (simp add: script_eval demo_op_def)

text \<open>
  Claim C4, amended. A per-item failure is not captured: what the dispatch raises is
  always the error of the operation on some item of the batch; it returns a sequence
  only if the operation succeeded on every item, the sequence then holding the values in
  input order; and if the operation fails on some item, the dispatch returns a sequence
  in no state, and for C \<open>\<ge>\<close> 1 every schedule can be continued until it raises the
  error of a failing item.
\<close>

theorem failure_propagates:
  "(\<forall>x. outer (lp (script C op ps es)) = Some (Inl x) \<longrightarrow>
      (\<exists>i < length ps. \<exists>e. x = Remote e \<and> op (ps ! i) = Inl e)) \<and>
   (\<forall>vs. outer (lp (script C op ps es)) = Some (Inr vs) \<longrightarrow>
      length vs = length ps \<and> (\<forall>i < length ps. op (ps ! i) = Inr (vs ! i))) \<and>
   ((\<exists>i < length ps. \<exists>e. op (ps ! i) = Inl e) \<longrightarrow>
      (\<forall>vs. outer (lp (script C op ps es)) \<noteq> Some (Inr vs)) \<and>
      (1 \<le> C \<longrightarrow> (\<exists>es'. \<exists>i < length ps. \<exists>e. op (ps ! i) = Inl e \<and>
          outer (lp (script C op ps (es @ es'))) = Some (Inl (Remote e)))))"
proof -
  let ?s = "script C op ps es"
  have inv: "script_inv op ps ?s" using script_inv_all [of C op ps es] by blast
  have 1: "\<exists>i < length ps. \<exists>e. x = Remote e \<and> op (ps ! i) = Inl e"
    if "outer (lp ?s) = Some (Inl x)" for x
    by (rule script_outer_raised [OF inv that])
  have 2: "length vs = length ps \<and> (\<forall>i < length ps. op (ps ! i) = Inr (vs ! i))"
    if "outer (lp ?s) = Some (Inr vs)" for vs
    by (rule script_outer_returned [OF inv that])
  have 3: "outer (lp ?s) \<noteq> Some (Inr vs)" if "i < length ps" "op (ps ! i) = Inl e" for i e vs
    by (rule script_never_returns [OF inv that])
  have 4: "\<exists>es'. \<exists>i < length ps. \<exists>e. op (ps ! i) = Inl e \<and>
          outer (lp (script C op ps (es @ es'))) = Some (Inl (Remote e))"
    if C: "1 \<le> C" and f: "j < length ps" "op (ps ! j) = Inl e0" for j e0
  proof -
    from script_continues [OF C, of op ps es] obtain es' where
      st: "settled (script C op ps (es @ es'))" by blast
    let ?t = "script C op ps (es @ es')"
    have inv': "script_inv op ps ?t" using script_inv_all [of C op ps "es @ es'"] by blast
    from script_outer_settled [OF inv' st] obtain res where res: "outer (lp ?t) = Some res" by blast
    show ?thesis
    proof (cases res)
      case (Inr vs)
      with res script_never_returns [OF inv' f, of vs] show ?thesis by simp
    next
      case (Inl x)
      with res script_outer_raised [OF inv', of x] obtain i e where
        "i < length ps" "x = Remote e" "op (ps ! i) = Inl e" by blast
      with res Inl show ?thesis by blast
    qed
  qed
  from 1 2 3 4 show ?thesis by blast
qed

theorem failure_propagates_witness:
  "demo_op ([0, 2, 4] ! 1) = Inl NotFound \<and> (1::nat) \<le> 2 \<and>
   outer (lp (script 2 demo_op [0, 2, 4] [SRun 0, SRun 1, SRun 2, SComplete 1])) = None \<and>
   outer (lp (script 2 demo_op [0, 2, 4] ([SRun 0, SRun 1, SRun 2, SComplete 1] @ [SRun 2, SNotify 1])))
     = Some (Inl (Remote NotFound)) \<and>
   outer (lp (script 2 demo_op [0, 2, 4] [SRun 0, SRun 1, SRun 2, SComplete 1, SRun 2, SNotify 1]))
     = Some (Inl (Remote NotFound)) \<and>
   outer (lp (script 2 demo_op [0, 4] [SRun 0, SRun 1, SComplete 1, SComplete 0, SNotify 1, SNotify 0]))
     = Some (Inr [100, 104]) \<and>
   demo_op ([0, 4] ! 0) = Inr ([100, 104] ! 0) \<and> demo_op ([0, 4] ! 1) = Inr ([100, 104] ! 1)"
  using failure_propagates [of 2 demo_op "[0, 2, 4]" "[SRun 0, SRun 1, SRun 2, SComplete 1]"]
    failure_propagates [of 2 demo_op "[0, 2, 4]"
      "[SRun 0, SRun 1, SRun 2, SComplete 1, SRun 2, SNotify 1]"]
    failure_propagates [of 2 demo_op "[0, 4]"
      "[SRun 0, SRun 1, SComplete 1, SComplete 0, SNotify 1, SNotify 0]"]
  by (simp add: script_eval demo_op_def)

text \<open>
  Claim C5 (as stated: the permit is released on every exit path, consequently the
  number of held permits never exceeds C and returns to zero after the batch completes).
  The last part fails when the batch ends by raising: with three items and limit 2, the
  first item failing, the dispatch has raised while the two other tasks are in their
  remote calls and hold both permits.
\<close>

theorem permits_held_when_dispatch_raises:
  "outer (lp (script 2 demo_op [2, 0, 1] [SRun 0, SRun 1, SRun 2, SComplete 0, SRun 2, SNotify 0]))
     = Some (Inl (Remote NotFound)) \<and>
   children (lp (script 2 demo_op [2, 0, 1] [SRun 0, SRun 1, SRun 2, SComplete 0, SRun 2, SNotify 0]))
     = [Done (Inl (Remote NotFound)), InFlight, InFlight] \<and>
   held (lp (script 2 demo_op [2, 0, 1] [SRun 0, SRun 1, SRun 2, SComplete 0, SRun 2, SNotify 0])) = 2 \<and>
   sem_value (lp (script 2 demo_op [2, 0, 1] [SRun 0, SRun 1, SRun 2, SComplete 0, SRun 2, SNotify 0])) = 0"
  by (simp add: script_eval held_def count_tasks_def demo_op_def)

text \<open>
  Claim C5, amended. In every state the script can reach, cancellations included, the
  semaphore's counter and the number of permits held add up to the capacity C: a permit
  is held by exactly the tasks between acquiring it and leaving the \<^verbatim>\<open>async with\<close> block,
  whether they leave it by returning, by raising or by being cancelled. Hence at most C
  permits are held. No permit is held, and the counter is back at C, once every task has
  ended, which can be later than the moment the dispatch raises; for C \<open>\<ge>\<close> 1 every
  schedule can be continued to that point.
\<close>

theorem permits_acquired_and_released:
  "sem_value (lp (script C op ps es)) + held (lp (script C op ps es)) = C \<and>
   held (lp (script C op ps es)) \<le> C \<and>
   (all_done (lp (script C op ps es)) \<longrightarrow> sem_value (lp (script C op ps es)) = C) \<and>
   (1 \<le> C \<longrightarrow> (\<exists>es'. settled (script C op ps (es @ es')) \<and>
      sem_value (lp (script C op ps (es @ es'))) = C))"
proof -
  let ?l = "lp (script C op ps es)"
  have si: "sem_inv C ?l" using script_inv_all [of C op ps es] by blast
  then have 1: "sem_value ?l + held ?l = C" by (simp add: sem_inv_def)
  then have 2: "held ?l \<le> C" by simp
  have 3: "sem_value ?l = C" if "all_done ?l" using all_done_held [OF that] 1 by simp
  have 4: "\<exists>es'. settled (script C op ps (es @ es')) \<and>
      sem_value (lp (script C op ps (es @ es'))) = C" if C: "1 \<le> C"
  proof -
    from script_continues [OF C, of op ps es] obtain es' where
      st: "settled (script C op ps (es @ es'))" by blast
    let ?t = "lp (script C op ps (es @ es'))"
    have "sem_inv C ?t" using script_inv_all [of C op ps "es @ es'"] by blast
    then have "sem_value ?t + held ?t = C" by (simp add: sem_inv_def)
    moreover from st have "all_done ?t" by (simp add: settled_def)
    ultimately have "sem_value ?t = C" using all_done_held [of ?t] by simp
    with st show ?thesis by blast
  qed
  from 1 2 3 4 show ?thesis by blast
qed

theorem permits_acquired_and_released_witness:
  "sem_value (lp (script 2 demo_op [2, 0, 1] [SRun 0, SRun 1, SRun 2, SComplete 0, SRun 2, SNotify 0])) = 0 \<and>
   held (lp (script 2 demo_op [2, 0, 1] [SRun 0, SRun 1, SRun 2, SComplete 0, SRun 2, SNotify 0])) = 2 \<and>
   (1::nat) \<le> 2 \<and>
   all_done (lp (script 2 demo_op [2, 0, 1]
      [SRun 0, SRun 1, SRun 2, SComplete 0, SRun 2, SNotify 0, SCancel 1, SComplete 2,
       SNotify 1, SNotify 2])) \<and>
   children (lp (script 2 demo_op [2, 0, 1]
      [SRun 0, SRun 1, SRun 2, SComplete 0, SRun 2, SNotify 0, SCancel 1, SComplete 2,
       SNotify 1, SNotify 2]))
     = [Done (Inl (Remote NotFound)), Done (Inl CancelledError), Done (Inr 101)] \<and>
   sem_value (lp (script 2 demo_op [2, 0, 1]
      [SRun 0, SRun 1, SRun 2, SComplete 0, SRun 2, SNotify 0, SCancel 1, SComplete 2,
       SNotify 1, SNotify 2])) = 2"
  using permits_acquired_and_released [of 2 demo_op "[2, 0, 1]"
      "[SRun 0, SRun 1, SRun 2, SComplete 0, SRun 2, SNotify 0]"]
    permits_acquired_and_released [of 2 demo_op "[2, 0, 1]"
      "[SRun 0, SRun 1, SRun 2, SComplete 0, SRun 2, SNotify 0, SCancel 1, SComplete 2,
        SNotify 1, SNotify 2]"]
  by (simp add: script_eval all_done_def held_def count_tasks_def demo_op_def)

text \<open>
  Claim C6. For the empty list of payloads and every limit, the dispatch returns the empty
  sequence, at once (the future is resolved in the initial state and no event changes
  the state), and the operation is never called.
\<close>

theorem empty_batch:
  fixes op :: "'p \<Rightarrow> 'e + 'v"
  shows "outer (dispatch C op [] es) = Some (Inr []) \<and>
   calls (dispatch C op [] es) = [] \<and>
   children (dispatch C op [] es) = [] \<and>
   nfinished (dispatch C op [] es) = 0 \<and>
   sem_value (dispatch C op [] es) = C"
proof -
  let ?g = "gather_init C ([] :: 'p list) :: ('e, 'v) loop"
  have "run_loop op [] es ?g = ?g"
  proof (induction es rule: rev_induct)
    case Nil
    show ?case by (simp add: run_loop_def)
  next
    case (snoc e es)
    have "\<not> enabled e ?g" by (cases e) (simp_all add: gather_init_def)
    from step_disabled [OF this] snoc show ?case by (simp add: run_loop_snoc)
  qed
  then show ?thesis by (simp add: dispatch_def gather_init_def)
qed

theorem empty_batch_witness:
  "outer (dispatch 5 demo_op [] [Run 0, Complete 0, Run 1]) = Some (Inr []) \<and>
   calls (dispatch 5 demo_op [] [Run 0, Complete 0, Run 1]) = []"
  using empty_batch [of 5 demo_op "[Run 0, Complete 0, Run 1]"] by simp

text \<open>
  Claim C7 (as stated: for a fixed input list and operation, any two completion schedules
  give the same result). With two items that fail with different errors, the item whose
  call completes first decides what the dispatch raises.
\<close>

theorem completion_order_changes_raised_error:
  "settled (script 5 flaky_op [0, 1] [SRun 0, SRun 1, SComplete 0, SComplete 1, SNotify 0, SNotify 1]) \<and>
   settled (script 5 flaky_op [0, 1] [SRun 0, SRun 1, SComplete 1, SComplete 0, SNotify 1, SNotify 0]) \<and>
   outer (lp (script 5 flaky_op [0, 1] [SRun 0, SRun 1, SComplete 0, SComplete 1, SNotify 0, SNotify 1]))
     = Some (Inl (Remote NotFound)) \<and>
   outer (lp (script 5 flaky_op [0, 1] [SRun 0, SRun 1, SComplete 1, SComplete 0, SNotify 1, SNotify 0]))
     = Some (Inl (Remote (RateLimited 30)))"
  by (simp add: script_eval settled_def all_done_def flaky_op_def)

text \<open>
  Claim C7, amended. For a fixed input list, operation and limit, any two schedules after
  which the dispatch has produced its result (a returned sequence or a raised error) give
  the same result, except that when the operation fails on two or more items the two
  dispatches may raise the errors of two different failing items. In particular a
  returned sequence is determined by input index alone, and if the operation succeeds on
  every item, or fails on exactly one, the result does not depend on the schedule. A
  result, once produced, is not changed by any later event.
\<close>

theorem completion_order_independence:
  assumes "outer (lp (script C op ps es1)) \<noteq> None" and "outer (lp (script C op ps es2)) \<noteq> None"
  shows "(outer (lp (script C op ps es1)) = outer (lp (script C op ps es2)) \<or>
      (\<exists>i1 < length ps. \<exists>i2 < length ps. \<exists>e1 e2. i1 \<noteq> i2 \<and>
          op (ps ! i1) = Inl e1 \<and> op (ps ! i2) = Inl e2 \<and>
          outer (lp (script C op ps es1)) = Some (Inl (Remote e1)) \<and>
          outer (lp (script C op ps es2)) = Some (Inl (Remote e2)))) \<and>
    outer (lp (script C op ps (es1 @ es'))) = outer (lp (script C op ps es1))"
proof -
  let ?s1 = "script C op ps es1" and ?s2 = "script C op ps es2"
  have g1: "script_inv op ps ?s1" using script_inv_all [of C op ps es1] by blast
  have g2: "script_inv op ps ?s2" using script_inv_all [of C op ps es2] by blast
  from assms(1) obtain r1 where r1: "outer (lp ?s1) = Some r1" by blast
  from assms(2) obtain r2 where r2: "outer (lp ?s2) = Some r2" by blast
  have a: "outer (lp ?s1) = outer (lp ?s2) \<or>
      (\<exists>i1 < length ps. \<exists>i2 < length ps. \<exists>e1 e2. i1 \<noteq> i2 \<and>
          op (ps ! i1) = Inl e1 \<and> op (ps ! i2) = Inl e2 \<and>
          outer (lp ?s1) = Some (Inl (Remote e1)) \<and> outer (lp ?s2) = Some (Inl (Remote e2)))"
  proof (cases r1)
    case (Inr vs1)
    with r1 have o1: "outer (lp ?s1) = Some (Inr vs1)" by simp
    note a = script_outer_returned [OF g1 o1]
    show ?thesis
    proof (cases r2)
      case (Inr vs2)
      with r2 have o2: "outer (lp ?s2) = Some (Inr vs2)" by simp
      note b = script_outer_returned [OF g2 o2]
      have "vs1 = vs2"
      proof (rule nth_equalityI)
        show "length vs1 = length vs2" using a b by simp
      next
        fix i assume "i < length vs1"
        with a have i: "i < length ps" by simp
        with a have "op (ps ! i) = Inr (vs1 ! i)" by simp
        moreover from i b have "op (ps ! i) = Inr (vs2 ! i)" by simp
        ultimately show "vs1 ! i = vs2 ! i" by simp
      qed
      with o1 o2 show ?thesis by simp
    next
      case (Inl x2)
      with r2 script_outer_raised [OF g2, of x2] obtain i e where "i < length ps" "op (ps ! i) = Inl e"
        by auto
      with a show ?thesis by simp
    qed
  next
    case (Inl x1)
    with r1 script_outer_raised [OF g1, of x1] obtain i1 e1 where
      i1: "i1 < length ps" "op (ps ! i1) = Inl e1" "x1 = Remote e1" by auto
    show ?thesis
    proof (cases r2)
      case (Inr vs2)
      with r2 script_outer_returned [OF g2, of vs2] i1 show ?thesis by simp
    next
      case (Inl x2)
      with r2 script_outer_raised [OF g2, of x2] obtain i2 e2 where
        i2: "i2 < length ps" "op (ps ! i2) = Inl e2" "x2 = Remote e2" by auto
      show ?thesis
      proof (cases "e1 = e2")
        case True
        with r1 r2 \<open>r1 = Inl x1\<close> Inl i1(3) i2(3) show ?thesis by simp
      next
        case False
        with i1 i2 have "i1 \<noteq> i2" by auto
        with i1 i2 r1 r2 \<open>r1 = Inl x1\<close> Inl show ?thesis by blast
      qed
    qed
  qed
  have b: "outer (lp (script C op ps (es1 @ es'))) = outer (lp ?s1)"
    by (rule script_outer_final [OF assms(1)])
  from a b show ?thesis by blast
qed

theorem completion_order_independence_witness:
  "outer (lp (script 2 demo_op [0, 1, 2] [SRun 2, SComplete 2, SNotify 2])) \<noteq> None \<and>
   outer (lp (script 2 demo_op [0, 1, 2]
      [SRun 0, SRun 1, SRun 2, SComplete 0, SRun 2, SComplete 1, SComplete 2,
       SNotify 0, SNotify 1, SNotify 2])) \<noteq> None \<and>
   \<not> all_done (lp (script 2 demo_op [0, 1, 2] [SRun 2, SComplete 2, SNotify 2])) \<and>
   outer (lp (script 2 demo_op [0, 1, 2] [SRun 2, SComplete 2, SNotify 2]))
     = outer (lp (script 2 demo_op [0, 1, 2]
      [SRun 0, SRun 1, SRun 2, SComplete 0, SRun 2, SComplete 1, SComplete 2,
       SNotify 0, SNotify 1, SNotify 2])) \<and>
   outer (lp (script 2 demo_op [0, 1, 2] ([SRun 2, SComplete 2, SNotify 2] @ [SCancel 0, SCancel 1])))
     = outer (lp (script 2 demo_op [0, 1, 2] [SRun 2, SComplete 2, SNotify 2]))"
  using completion_order_independence [of 2 demo_op "[0, 1, 2]" "[SRun 2, SComplete 2, SNotify 2]"
      "[SRun 0, SRun 1, SRun 2, SComplete 0, SRun 2, SComplete 1, SComplete 2,
        SNotify 0, SNotify 1, SNotify 2]" "[SCancel 0, SCancel 1]"]
  by (simp add: script_eval all_done_def demo_op_def)



section \<open>Reading a .env file\<close>

text \<open>
  Claim C9. Reading the .env file with \<^verbatim>\<open>dotenv_values\<close>, as \<^verbatim>\<open>example_dotenv_values\<close> does,
  leaves the process environment as it was, for every prior environment and every key
  (so in particular for the keys that only the file binds); the lookup that the example
  prints afterwards gives what the same lookup gave before the call; and the returned
  dictionary holds the three bindings of the file.
\<close>

theorem dotenv_values_leaves_environ:
  "os_environ (snd (example_dotenv_values tmpdir w)) = os_environ w \<and>
   fst (example_dotenv_values tmpdir w) =
     [(''NOCODB_BASE_URL'', ''https://isolated-example.com''),
      (''NOCODB_API_TOKEN'', ''isolated-token''),
      (''NOCODB_TIMEOUT'', ''45.0'')] \<and>
   last (stdout (snd (example_dotenv_values tmpdir w))) =
     ''os.environ['NOCODB_BASE_URL'] = '' @ getenv ''NOCODB_BASE_URL'' ''(not set)'' w"
proof -
  have e: "os_environ (print_items d w') = os_environ w' \<and> files (print_items d w') = files w'"
    for d w'
    unfolding print_items_def
    by (induction d arbitrary: w') (simp_all add: print_out_def)
  have l: "last (stdout (print_out l w')) = l" for l w'
    by (simp add: print_out_def)
  show ?thesis
    by (simp add: example_dotenv_values_def Let_def l e)
       (simp add: e parse_env_content dotenv_values_def print_out_def write_text_def getenv_def)
qed

theorem dotenv_values_leaves_environ_witness:
  "os_environ (snd (example_dotenv_values ''/tmp/tmp0''
      \<lparr>os_environ = [''HOME'' \<mapsto> ''/root''], files = Map.empty, stdout = []\<rparr>)) ''NOCODB_BASE_URL''
     = None \<and>
   map_of (fst (example_dotenv_values ''/tmp/tmp0''
      \<lparr>os_environ = [''HOME'' \<mapsto> ''/root''], files = Map.empty, stdout = []\<rparr>)) ''NOCODB_BASE_URL''
     = Some ''https://isolated-example.com'' \<and>
   last (stdout (snd (example_dotenv_values ''/tmp/tmp0''
      \<lparr>os_environ = [''HOME'' \<mapsto> ''/root''], files = Map.empty, stdout = []\<rparr>)))
     = ''os.environ['NOCODB_BASE_URL'] = (not set)''"
  using dotenv_values_leaves_environ [of "''/tmp/tmp0''"
      "\<lparr>os_environ = [''HOME'' \<mapsto> ''/root''], files = Map.empty, stdout = []\<rparr>"]
  by (simp add: getenv_def)

section \<open>The dependency check\<close>

text \<open>
  Claim C10. When \<^verbatim>\<open>aiohttp\<close> or \<^verbatim>\<open>aiofiles\<close> is not found, the module prints the
  installation banner and exits with status 1, and no module of the
  \<^verbatim>\<open>nocodb_simple_client\<close> package has been imported: only the three standard-library
  imports that precede the check have run. The package imports are reached exactly when
  both dependencies are found.
\<close>

theorem async_example_import_guard:
  "(\<not> (find_spec ''aiohttp'' \<and> find_spec ''aiofiles'') \<longrightarrow>
      exit_status (async_example_module find_spec) = Some 1 \<and>
      imported (async_example_module find_spec) = [''asyncio'', ''importlib.util'', ''sys''] \<and>
      printed (async_example_module find_spec) =
        [rule60, ''ERROR: Async dependencies not installed!'', rule60, [],
         ''To use the async client, install the [async] extra:'', [],
         ''    pip install \"nocodb-simple-client[async]\"'', [],
         ''This will install: aiohttp, aiofiles'', rule60]) \<and>
   (''nocodb_simple_client'' \<in> set (imported (async_example_module find_spec)) \<longleftrightarrow>
      find_spec ''aiohttp'' \<and> find_spec ''aiofiles'') \<and>
   (find_spec ''aiohttp'' \<and> find_spec ''aiofiles'' \<longrightarrow>
      exit_status (async_example_module find_spec) = None \<and>
      printed (async_example_module find_spec) = [] \<and>
      imported (async_example_module find_spec) =
        [''asyncio'', ''importlib.util'', ''sys'', ''nocodb_simple_client'',
         ''nocodb_simple_client.async_client'', ''nocodb_simple_client.exceptions''])"
proof (cases "ASYNC_AVAILABLE find_spec")
  case True
  then have av: "find_spec ''aiohttp'' \<and> find_spec ''aiofiles''"
    by (simp add: ASYNC_AVAILABLE_def)
  from True have "async_example_module find_spec = client_imports (stdlib_imports proc_start)"
    by (simp add: async_example_module_def dependency_check_def)
  then have "async_example_module find_spec =
      \<lparr>printed = [], imported = [''asyncio'', ''importlib.util'', ''sys'', ''nocodb_simple_client'',
         ''nocodb_simple_client.async_client'', ''nocodb_simple_client.exceptions''],
       exit_status = None\<rparr>"
    by (simp add: stdlib_imports_start client_imports_def import_module_def)
  with av show ?thesis by simp
next
  case False
  then have nav: "\<not> (find_spec ''aiohttp'' \<and> find_spec ''aiofiles'')"
    by (simp add: ASYNC_AVAILABLE_def)
  let ?p = "stdlib_imports proc_start"
  have run: "exit_status ?p = None" by (simp add: stdlib_imports_start)
  note b = install_banner_running [OF run]
  have ex: "exit_status (sys_exit 1 (install_banner ?p)) = Some 1"
    using b by (simp add: sys_exit_def)
  have m: "async_example_module find_spec = sys_exit 1 (install_banner ?p)"
    using False ex by (simp add: async_example_module_def dependency_check_def client_imports_exited)
  have i: "imported (sys_exit 1 (install_banner ?p)) = [''asyncio'', ''importlib.util'', ''sys'']"
    using b by (simp add: sys_exit_def stdlib_imports_start)
  have pr: "printed (sys_exit 1 (install_banner ?p)) =
        [rule60, ''ERROR: Async dependencies not installed!'', rule60, [],
         ''To use the async client, install the [async] extra:'', [],
         ''    pip install \"nocodb-simple-client[async]\"'', [],
         ''This will install: aiohttp, aiofiles'', rule60]"
    using b by (simp add: sys_exit_def stdlib_imports_start)
  show ?thesis unfolding m using nav ex i pr by simp
qed

theorem async_example_import_guard_witness:
  "exit_status (async_example_module (\<lambda>m. m = ''aiohttp'')) = Some 1 \<and>
   ''nocodb_simple_client'' \<notin> set (imported (async_example_module (\<lambda>m. m = ''aiohttp''))) \<and>
   imported (async_example_module (\<lambda>m. True)) =
     [''asyncio'', ''importlib.util'', ''sys'', ''nocodb_simple_client'',
      ''nocodb_simple_client.async_client'', ''nocodb_simple_client.exceptions'']"
  using async_example_import_guard [of "\<lambda>m. m = ''aiohttp''"]
    async_example_import_guard [of "\<lambda>m. True"]
  by simp

end
